theory Spec2Isabelle
  imports Main "HOL-Library.Word"
begin

section \<open>Window covering sketch (src/unnamed/part_001)\<close>

subsection \<open>Constants, globals, outputs and the remote command source\<close>

text \<open>The four limits are preprocessor macros expanding to \<^verbatim>\<open>int\<close> literals.\<close>

definition MAX_LIFT :: int where "MAX_LIFT = 9"
definition MIN_LIFT :: int where "MIN_LIFT = 0"
definition MAX_TILT :: int where "MAX_TILT = 5"
definition MIN_TILT :: int where "MIN_TILT = 0"

text \<open>
  Everything the sketch sends to a collaborator is logged as an event, in program order:
  the LED pin, the display (\<^verbatim>\<open>drawBlinds\<close> reads \<^verbatim>\<open>currentLift\<close> and
  \<^verbatim>\<open>currentTilt\<close>; the pixels are not modelled), the Zigbee endpoint setters and the
  serial console.
\<close>

datatype event =
    DigitalWriteLed bool
  | DrawBlinds "16 word" "16 word"
  | SetLiftPercentage "8 word"
  | SetTiltPercentage "8 word"
  | PrintLifting "16 word"
  | PrintTilting "16 word"
  | PrintNewLift "16 word" "8 word"
  | PrintNewTilt "16 word" "8 word"
  | Println string

text \<open>The callbacks registered on the endpoint in \<^verbatim>\<open>setup\<close>, as the stack may invoke them.\<close>

datatype callback =
    FullOpen
  | FullClose
  | GoToLiftPercentage "8 word"
  | GoToTiltPercentage "8 word"
  | StopMotor

text \<open>
  The globals of the sketch, with their C types: \<^verbatim>\<open>uint16_t\<close> positions, \<^verbatim>\<open>uint8_t\<close>
  percentages, \<^verbatim>\<open>int16_t\<close> pending targets (\<open>-1\<close>, the word \<open>0xFFFF\<close>, means none).
  Two more fields make the environment explicit: \<open>incoming\<close> lists, for each coming
  \<^verbatim>\<open>delay(250)\<close> of a step loop, the callbacks the Zigbee task runs during that delay
  (nothing once the list is used up), and \<open>out\<close> is the log of events so far.
\<close>

record blinds =
  currentLift :: "16 word"
  currentLiftPercentage :: "8 word"
  currentTilt :: "16 word"
  currentTiltPercentage :: "8 word"
  stop :: bool
  moving :: bool
  nextLift :: "16 word"
  nextTilt :: "16 word"
  incoming :: "callback list list"
  out :: "event list"

text \<open>The eight program variables alone, without environment and log.\<close>

definition globals ::
  "blinds \<Rightarrow> 16 word \<times> 8 word \<times> 16 word \<times> 8 word \<times> bool \<times> bool \<times> 16 word \<times> 16 word" where
  "globals w = (currentLift w, currentLiftPercentage w, currentTilt w, currentTiltPercentage w,
                stop w, moving w, nextLift w, nextTilt w)"

definition emit :: "event \<Rightarrow> blinds \<Rightarrow> blinds" where
  "emit e w = w\<lparr>out := out w @ [e]\<rparr>"

subsection \<open>Zigbee callbacks\<close>

definition fullOpen :: "blinds \<Rightarrow> blinds" where
  "fullOpen w = (emit (Println ''Opening cover'') w)\<lparr>nextLift := word_of_int MIN_LIFT\<rparr>"

definition fullClose :: "blinds \<Rightarrow> blinds" where
  "fullClose w = (emit (Println ''Closing cover'') w)\<lparr>nextLift := word_of_int MAX_LIFT\<rparr>"

text \<open>
  \<^verbatim>\<open>(liftPercentage * MAX_LIFT) / 100\<close> is computed in \<^verbatim>\<open>int\<close> (the \<^verbatim>\<open>uint8_t\<close> is
  promoted; the operands are not negative, so C's division is \<open>div\<close>), then stored in a
  \<^verbatim>\<open>uint16_t\<close> and from there in the \<^verbatim>\<open>int16_t\<close> pending target.
\<close>

definition goToLiftPercentage :: "8 word \<Rightarrow> blinds \<Rightarrow> blinds" where
  "goToLiftPercentage liftPercentage w =
     (let lift_position = (word_of_int ((uint liftPercentage * MAX_LIFT) div 100) :: 16 word)
      in (emit (PrintNewLift lift_position liftPercentage) w)\<lparr>nextLift := lift_position\<rparr>)"

definition goToTiltPercentage :: "8 word \<Rightarrow> blinds \<Rightarrow> blinds" where
  "goToTiltPercentage tiltPercentage w =
     (let tilt_position = (word_of_int ((uint tiltPercentage * MAX_TILT) div 100) :: 16 word)
      in (emit (PrintNewTilt tilt_position tiltPercentage) w)\<lparr>nextTilt := tilt_position\<rparr>)"

definition stopMotor :: "blinds \<Rightarrow> blinds" where
  "stopMotor w = (if moving w then emit (Println ''Stopping motor'') (w\<lparr>stop := True\<rparr>) else w)"

fun invoke :: "callback \<Rightarrow> blinds \<Rightarrow> blinds" where
  "invoke FullOpen w = fullOpen w"
| "invoke FullClose w = fullClose w"
| "invoke (GoToLiftPercentage p) w = goToLiftPercentage p w"
| "invoke (GoToTiltPercentage p) w = goToTiltPercentage p w"
| "invoke StopMotor w = stopMotor w"

text \<open>
  \<^verbatim>\<open>delay(ms)\<close> inside a step loop: the loop task sleeps and the callbacks scheduled for
  this delay run, in order. This is the step boundary at which a stop request can arrive.
\<close>

definition delay :: "nat \<Rightarrow> blinds \<Rightarrow> blinds" where
  "delay ms w =
     (case incoming w of
        [] \<Rightarrow> w
      | cbs # rest \<Rightarrow> fold invoke cbs (w\<lparr>incoming := rest\<rparr>))"

subsection \<open>The step loops\<close>

definition drawBlinds :: "blinds \<Rightarrow> blinds" where
  "drawBlinds w = emit (DrawBlinds (currentLift w) (currentTilt w)) w"

text \<open>
  One iteration of the loop body of \<^verbatim>\<open>moveCoversLift\<close> after the stop check. The loop
  counter \<open>i\<close> is a C \<^verbatim>\<open>int\<close>; it stays between \<open>-1\<close> and \<open>65536\<close>, so it is an
  unbounded \<open>int\<close> here, and the assignment to the \<^verbatim>\<open>uint16_t\<close> truncates. The
  percentage is computed in \<^verbatim>\<open>int\<close> and truncated to \<^verbatim>\<open>uint8_t\<close>.
\<close>

definition lift_body :: "int \<Rightarrow> blinds \<Rightarrow> blinds" where
  "lift_body i w =
     (let w1 = w\<lparr>currentLift := word_of_int i\<rparr>;
          w2 = drawBlinds w1;
          w3 = w2\<lparr>currentLiftPercentage := word_of_int ((uint (currentLift w2) * 100) div MAX_LIFT)\<rparr>;
          w4 = emit (SetLiftPercentage (currentLiftPercentage w3)) w3;
          w5 = emit (PrintLifting (currentLift w4)) w4
      in delay 250 w5)"

text \<open>
  The \<^verbatim>\<open>for\<close> loop of \<^verbatim>\<open>moveCoversLift\<close>: \<open>Some\<close> of the state in which the loop is
  left, by its condition or by \<^verbatim>\<open>break\<close>.
\<close>

partial_function (option) lift_loop :: "16 word \<Rightarrow> int \<Rightarrow> int \<Rightarrow> blinds \<Rightarrow> blinds option" where
  "lift_loop lift_position step i w =
     (if i \<noteq> uint lift_position + step then
        (if stop w then Some (w\<lparr>stop := False, moving := False\<rparr>)
         else lift_loop lift_position step (i + step) (lift_body i w))
      else Some w)"

definition moveCoversLift :: "16 word \<Rightarrow> blinds \<Rightarrow> blinds option" where
  "moveCoversLift lift_position w =
     (if lift_position = currentLift w then Some w
      else
        let w1 = w\<lparr>moving := True\<rparr>;
            w2 = emit (DigitalWriteLed True) w1;
            step = (if currentLift w2 < lift_position then 1 else - 1)
        in case lift_loop lift_position step (uint (currentLift w2) + step) w2 of
             None \<Rightarrow> None
           | Some w3 \<Rightarrow> Some (emit (DigitalWriteLed False) (w3\<lparr>moving := False\<rparr>)))"

text \<open>The tilt axis; its percentage is divided by \<^verbatim>\<open>MAX_LIFT\<close>, as in the source.\<close>

definition tilt_body :: "int \<Rightarrow> blinds \<Rightarrow> blinds" where
  "tilt_body i w =
     (let w1 = w\<lparr>currentTilt := word_of_int i\<rparr>;
          w2 = drawBlinds w1;
          w3 = w2\<lparr>currentTiltPercentage := word_of_int ((uint (currentTilt w2) * 100) div MAX_LIFT)\<rparr>;
          w4 = emit (SetTiltPercentage (currentTiltPercentage w3)) w3;
          w5 = emit (PrintTilting (currentTilt w4)) w4
      in delay 250 w5)"

partial_function (option) tilt_loop :: "16 word \<Rightarrow> int \<Rightarrow> int \<Rightarrow> blinds \<Rightarrow> blinds option" where
  "tilt_loop tilt_position step i w =
     (if i \<noteq> uint tilt_position + step then
        (if stop w then Some (w\<lparr>stop := False, moving := False\<rparr>)
         else tilt_loop tilt_position step (i + step) (tilt_body i w))
      else Some w)"

definition moveCoversTilt :: "16 word \<Rightarrow> blinds \<Rightarrow> blinds option" where
  "moveCoversTilt tilt_position w =
     (if tilt_position = currentTilt w then Some w
      else
        let w1 = w\<lparr>moving := True\<rparr>;
            w2 = emit (DigitalWriteLed True) w1;
            step = (if currentTilt w2 < tilt_position then 1 else - 1)
        in case tilt_loop tilt_position step (uint (currentTilt w2) + step) w2 of
             None \<Rightarrow> None
           | Some w3 \<Rightarrow> Some (emit (DigitalWriteLed False) (w3\<lparr>moving := False\<rparr>)))"

subsection \<open>The control loop\<close>

text \<open>
  The body of \<^verbatim>\<open>loop\<close> from the key sampling on, for an iteration in which the reset
  button reads HIGH (the factory-reset block before it touches none of the globals).
  \<open>keyA\<close> and \<open>keyB\<close> say whether \<^verbatim>\<open>Glass.getKeyA()\<close> and \<^verbatim>\<open>Glass.getKeyB()\<close>
  return 0. The comparisons with the limits and \<open>currentLift \<plusminus> 1\<close> are \<^verbatim>\<open>int\<close>
  arithmetic, the result is truncated to \<^verbatim>\<open>int16_t\<close>; the pending target is converted to
  \<^verbatim>\<open>uint16_t\<close> when passed on.
\<close>

definition sample_keys :: "bool \<Rightarrow> bool \<Rightarrow> blinds \<Rightarrow> blinds" where
  "sample_keys keyA keyB w =
     (let wa = (if keyA \<and> uint (currentLift w) > MIN_LIFT
                then w\<lparr>nextLift := word_of_int (uint (currentLift w) - 1)\<rparr> else w)
      in if keyB \<and> uint (currentLift wa) < MAX_LIFT
         then wa\<lparr>nextLift := word_of_int (uint (currentLift wa) + 1)\<rparr> else wa)"

definition loop_body :: "bool \<Rightarrow> bool \<Rightarrow> blinds \<Rightarrow> blinds option" where
  "loop_body keyA keyB w =
     (let wb = sample_keys keyA keyB w
      in case (if nextLift wb \<noteq> - 1
               then map_option (\<lambda>w'. w'\<lparr>nextLift := - 1\<rparr>) (moveCoversLift (nextLift wb) wb)
               else Some wb) of
           None \<Rightarrow> None
         | Some wc \<Rightarrow>
             (if nextTilt wc \<noteq> - 1
              then map_option (\<lambda>w'. w'\<lparr>nextTilt := - 1\<rparr>) (moveCoversTilt (nextTilt wc) wc)
              else Some wc))"

text \<open>The globals as initialised at start-up, with a given callback schedule.\<close>

definition startup :: "callback list list \<Rightarrow> blinds" where
  "startup sched =
     \<lparr>currentLift = word_of_int MAX_LIFT, currentLiftPercentage = 100,
      currentTilt = word_of_int MAX_TILT, currentTiltPercentage = 100,
      stop = False, moving = False, nextLift = - 1, nextTilt = - 1,
      incoming = sched, out = []\<rparr>"

declare lift_loop.simps [code]
declare tilt_loop.simps [code]

subsection \<open>Reading the log\<close>

text \<open>
  The values printed by the step loops (\<^verbatim>\<open>"Lifting to %d"\<close>, \<^verbatim>\<open>"Tilting to %d"\<close>) are the
  positions visited, and the arguments of the endpoint setters are the percentages
  reported, both in order.
\<close>

definition lift_positions :: "event list \<Rightarrow> 16 word list" where
  "lift_positions evs = [v. PrintLifting v \<leftarrow> evs]"

definition lift_percentages :: "event list \<Rightarrow> 8 word list" where
  "lift_percentages evs = [p. SetLiftPercentage p \<leftarrow> evs]"

definition tilt_positions :: "event list \<Rightarrow> 16 word list" where
  "tilt_positions evs = [v. PrintTilting v \<leftarrow> evs]"

definition tilt_percentages :: "event list \<Rightarrow> 8 word list" where
  "tilt_percentages evs = [p. SetTiltPercentage p \<leftarrow> evs]"

fun is_lift_step :: "event \<Rightarrow> bool" where
  "is_lift_step (SetLiftPercentage p) = True"
| "is_lift_step (PrintLifting v) = True"
| "is_lift_step e = False"

fun is_tilt_step :: "event \<Rightarrow> bool" where
  "is_tilt_step (SetTiltPercentage p) = True"
| "is_tilt_step (PrintTilting v) = True"
| "is_tilt_step e = False"

text \<open>
  A walk towards \<open>target\<close>: every value differs from the one before it by
  \<open>sgn (target - previous)\<close>, which is one unit.
\<close>

fun unit_steps :: "int \<Rightarrow> int \<Rightarrow> int list \<Rightarrow> bool" where
  "unit_steps target current [] = True"
| "unit_steps target current (v # vs) =
     (v - current = sgn (target - current) \<and> \<bar>v - current\<bar> = 1 \<and> unit_steps target v vs)"

text \<open>Rounding to the nearest integer (halves up), the rule the specification names.\<close>

definition round_div :: "int \<Rightarrow> int \<Rightarrow> int" where
  "round_div a b = (2 * a + b) div (2 * b)"

text \<open>The axis a remote command files a pending target for.\<close>

datatype axis = Lift | Tilt

fun request_axis :: "callback \<Rightarrow> axis option" where
  "request_axis FullOpen = Some Lift"
| "request_axis FullClose = Some Lift"
| "request_axis (GoToLiftPercentage p) = Some Lift"
| "request_axis (GoToTiltPercentage p) = Some Tilt"
| "request_axis StopMotor = None"

text \<open>
  The outcome of one move, from \<open>start\<close> towards \<open>target\<close>, that took \<open>k\<close> steps and left
  the axis at \<open>final\<close>, when \<open>pending\<close> is the stop flag at the call and \<open>sched\<close> the
  callback schedule at the call: either the move is complete (all steps taken, the axis
  at the target), or it was cancelled after \<open>k\<close> steps, \<open>k\<close> units from the start towards
  the target, and then a stop was pending at the call (\<open>k = 0\<close>) or a stop request
  arrived in the delay after step \<open>k\<close>.
\<close>

definition serviced :: "int \<Rightarrow> int \<Rightarrow> bool \<Rightarrow> callback list list \<Rightarrow> nat \<Rightarrow> int \<Rightarrow> bool" where
  "serviced start target pending sched k final =
     ((k = nat \<bar>target - start\<bar> \<and> final = target)
      \<or> (k < nat \<bar>target - start\<bar> \<and> final = start + int k * sgn (target - start)
          \<and> (if k = 0 then pending
              else k \<le> length sched \<and> StopMotor \<in> set (sched ! (k - 1)))))"

subsection \<open>The step loops unrolled\<close>

text \<open>
  \<open>lift_run n\<close> is the loop of \<^verbatim>\<open>moveCoversLift\<close> with \<open>n\<close> iterations left before its
  condition fails, and \<open>lift_taken n\<close> counts the steps it takes; \<open>lift_pct\<close> is the
  percentage expression of the loop body. The same for the tilt loop, whose percentage
  expression has \<^verbatim>\<open>MAX_LIFT\<close> as its divisor too. \<open>ramp i step n\<close> lists \<open>n\<close> values
  from \<open>i\<close> in steps of \<open>step\<close>.
\<close>

fun lift_run :: "nat \<Rightarrow> int \<Rightarrow> int \<Rightarrow> blinds \<Rightarrow> blinds" where
  "lift_run 0 step i w = w"
| "lift_run (Suc n) step i w =
     (if stop w then w\<lparr>stop := False, moving := False\<rparr>
      else lift_run n step (i + step) (lift_body i w))"

fun lift_taken :: "nat \<Rightarrow> int \<Rightarrow> int \<Rightarrow> blinds \<Rightarrow> nat" where
  "lift_taken 0 step i w = 0"
| "lift_taken (Suc n) step i w =
     (if stop w then 0 else Suc (lift_taken n step (i + step) (lift_body i w)))"

definition lift_pct :: "16 word \<Rightarrow> 8 word" where
  "lift_pct v = word_of_int ((uint v * 100) div MAX_LIFT)"

fun tilt_run :: "nat \<Rightarrow> int \<Rightarrow> int \<Rightarrow> blinds \<Rightarrow> blinds" where
  "tilt_run 0 step i w = w"
| "tilt_run (Suc n) step i w =
     (if stop w then w\<lparr>stop := False, moving := False\<rparr>
      else tilt_run n step (i + step) (tilt_body i w))"

fun tilt_taken :: "nat \<Rightarrow> int \<Rightarrow> int \<Rightarrow> blinds \<Rightarrow> nat" where
  "tilt_taken 0 step i w = 0"
| "tilt_taken (Suc n) step i w =
     (if stop w then 0 else Suc (tilt_taken n step (i + step) (tilt_body i w)))"

definition tilt_pct :: "16 word \<Rightarrow> 8 word" where
  "tilt_pct v = word_of_int ((uint v * 100) div MAX_LIFT)"

definition ramp :: "int \<Rightarrow> int \<Rightarrow> nat \<Rightarrow> int list" where
  "ramp i step n = map (\<lambda>k. i + int k * step) [0..<n]"

section \<open>CO2, temperature and humidity sketch (src/Demo3_CO2_Temp_Humid_Sensor)\<close>

text \<open>
  The SCD4x driver and the two Zigbee endpoints are libraries. A measurement cycle is
  modelled against the replies of the driver: the \<^verbatim>\<open>int16_t\<close> error codes of
  \<^verbatim>\<open>wakeUp\<close> and \<^verbatim>\<open>measureSingleShot\<close>, and for \<^verbatim>\<open>measureAndReadSingleShot\<close> the error
  code with the values it writes to its reference arguments. The \<^verbatim>\<open>float\<close> values are
  only passed on, so their type is left open as \<open>'f\<close>. Every call to a collaborator is
  logged.
\<close>

record 'f scd4x =
  wakeUp :: "16 word"
  measureSingleShot :: "16 word"
  measureAndReadSingleShot :: "16 word \<times> 16 word \<times> 'f \<times> 'f"

datatype 'f sensor_event =
    SensorWakeUp
  | SensorMeasureSingleShot
  | SensorMeasureAndReadSingleShot
  | PrintError string "16 word"
  | PrintCO2 "16 word"
  | PrintTemperature 'f
  | PrintHumidity 'f
  | SetTemperature 'f
  | SetHumidity 'f
  | SetCarbonDioxide "16 word"
  | ReportTemp
  | ReportCO2
  | Delay nat

text \<open>
  \<^verbatim>\<open>meausureAndReport\<close> (the source's spelling): the value left in the global
  \<^verbatim>\<open>error\<close> and the calls made, in order.
\<close>

definition meausureAndReport :: "'f scd4x \<Rightarrow> 16 word \<times> 'f sensor_event list" where
  "meausureAndReport sensor =
     (let e1 = wakeUp sensor in
      if e1 \<noteq> 0 then (e1, [SensorWakeUp, PrintError ''wakeUp'' e1])
      else
        let e2 = measureSingleShot sensor in
        if e2 \<noteq> 0 then
          (e2, [SensorWakeUp, SensorMeasureSingleShot, PrintError ''measureSingleShot'' e2])
        else
          (case measureAndReadSingleShot sensor of
             (e3, co2Concentration, temperature, relativeHumidity) \<Rightarrow>
               if e3 \<noteq> 0 then
                 (e3, [SensorWakeUp, SensorMeasureSingleShot, SensorMeasureAndReadSingleShot,
                       PrintError ''measureAndReadSingleShot'' e3])
               else
                 (e3, [SensorWakeUp, SensorMeasureSingleShot, SensorMeasureAndReadSingleShot,
                       PrintCO2 co2Concentration, PrintTemperature temperature,
                       PrintHumidity relativeHumidity,
                       SetTemperature temperature, SetHumidity relativeHumidity,
                       SetCarbonDioxide co2Concentration,
                       ReportTemp, ReportCO2, Delay 200])))"

fun is_endpoint_update :: "'f sensor_event \<Rightarrow> bool" where
  "is_endpoint_update (SetTemperature t) = True"
| "is_endpoint_update (SetHumidity h) = True"
| "is_endpoint_update (SetCarbonDioxide c) = True"
| "is_endpoint_update e = False"

fun is_report :: "'f sensor_event \<Rightarrow> bool" where
  "is_report ReportTemp = True"
| "is_report ReportCO2 = True"
| "is_report e = False"

fun is_sensor_command :: "'f sensor_event \<Rightarrow> bool" where
  "is_sensor_command SensorWakeUp = True"
| "is_sensor_command SensorMeasureSingleShot = True"
| "is_sensor_command SensorMeasureAndReadSingleShot = True"
| "is_sensor_command e = False"

fun is_error_print :: "'f sensor_event \<Rightarrow> bool" where
  "is_error_print (PrintError label code) = True"
| "is_error_print e = False"

section \<open>Lemmas about the window covering\<close>

subsection \<open>Callbacks and delays\<close>

lemma ramp_0: "ramp i step 0 = []"
  by (simp add: ramp_def)

lemma ramp_Suc: "ramp i step (Suc n) = i # ramp (i + step) step n"
  unfolding ramp_def
  by (simp only: upt_conv_Cons [of 0 "Suc n"] map_Suc_upt [symmetric] list.map map_map o_def) (simp add: algebra_simps)

lemma invoke_fields:
  "currentLift (invoke cb w) = currentLift w"
  "currentLiftPercentage (invoke cb w) = currentLiftPercentage w"
  "currentTilt (invoke cb w) = currentTilt w"
  "currentTiltPercentage (invoke cb w) = currentTiltPercentage w"
  "moving (invoke cb w) = moving w"
  "incoming (invoke cb w) = incoming w"
  "stop (invoke cb w) = (stop w \<or> (cb = StopMotor \<and> moving w))"
  by (cases cb; simp add: fullOpen_def fullClose_def goToLiftPercentage_def
        goToTiltPercentage_def stopMotor_def emit_def Let_def)+

lemma invoke_out:
  "\<exists>E. out (invoke cb w) = out w @ E \<and> (\<forall>e\<in>set E. \<not> is_lift_step e \<and> \<not> is_tilt_step e)"
  by (cases cb; simp add: fullOpen_def fullClose_def goToLiftPercentage_def
        goToTiltPercentage_def stopMotor_def emit_def Let_def)

lemma fold_invoke_fields:
  "currentLift (fold invoke cbs w) = currentLift w"
  "currentLiftPercentage (fold invoke cbs w) = currentLiftPercentage w"
  "currentTilt (fold invoke cbs w) = currentTilt w"
  "currentTiltPercentage (fold invoke cbs w) = currentTiltPercentage w"
  "moving (fold invoke cbs w) = moving w"
  "incoming (fold invoke cbs w) = incoming w"
  "stop (fold invoke cbs w) = (stop w \<or> (StopMotor \<in> set cbs \<and> moving w))"
  by (induction cbs arbitrary: w; auto simp: invoke_fields)+

lemma fold_invoke_out:
  "\<exists>E. out (fold invoke cbs w) = out w @ E \<and> (\<forall>e\<in>set E. \<not> is_lift_step e \<and> \<not> is_tilt_step e)"
proof (induction cbs arbitrary: w)
  case Nil
  then show ?case by simp
next
  case (Cons cb cbs)
  obtain E1 where E1: "out (invoke cb w) = out w @ E1"
      "\<forall>e\<in>set E1. \<not> is_lift_step e \<and> \<not> is_tilt_step e"
    using invoke_out by blast
  obtain E2 where E2: "out (fold invoke cbs (invoke cb w)) = out (invoke cb w) @ E2"
      "\<forall>e\<in>set E2. \<not> is_lift_step e \<and> \<not> is_tilt_step e"
    using Cons.IH by blast
  have "out (fold invoke (cb # cbs) w) = out w @ (E1 @ E2)"
    using E1(1) E2(1) by simp
  moreover have "\<forall>e\<in>set (E1 @ E2). \<not> is_lift_step e \<and> \<not> is_tilt_step e"
    using E1(2) E2(2) by auto
  ultimately show ?case by blast
qed

lemma delay_fields:
  "currentLift (delay ms w) = currentLift w"
  "currentLiftPercentage (delay ms w) = currentLiftPercentage w"
  "currentTilt (delay ms w) = currentTilt w"
  "currentTiltPercentage (delay ms w) = currentTiltPercentage w"
  "moving (delay ms w) = moving w"
  "incoming (delay ms w) = tl (incoming w)"
  "stop (delay ms w) = (stop w \<or> (incoming w \<noteq> [] \<and> StopMotor \<in> set (hd (incoming w)) \<and> moving w))"
  by (simp_all add: delay_def fold_invoke_fields split: list.splits)

lemma delay_out:
  "\<exists>E. out (delay ms w) = out w @ E \<and> (\<forall>e\<in>set E. \<not> is_lift_step e \<and> \<not> is_tilt_step e)"
proof (cases "incoming w")
  case Nil
  then show ?thesis by (simp add: delay_def)
next
  case (Cons cbs rest)
  then show ?thesis
    using fold_invoke_out [of cbs "w\<lparr>incoming := rest\<rparr>"] by (simp add: delay_def)
qed

subsection \<open>The lift loop\<close>

lemma lift_loop_run:
  "uint tgt + step - i = int n * step \<Longrightarrow> step \<noteq> 0
   \<Longrightarrow> lift_loop tgt step i w = Some (lift_run n step i w)"
proof (induction n arbitrary: i w)
  case 0
  then show ?case by (subst lift_loop.simps) simp
next
  case (Suc n)
  from Suc.prems have ne: "i \<noteq> uint tgt + step" by auto
  from Suc.prems have "uint tgt + step - (i + step) = int n * step"
    by (simp add: algebra_simps)
  from Suc.IH [OF this Suc.prems(2)] ne show ?case
    by (subst lift_loop.simps) simp
qed


lemma lift_body_fields:
  "currentLift (lift_body i w) = word_of_int i"
  "currentLiftPercentage (lift_body i w) = lift_pct (word_of_int i)"
  "currentTilt (lift_body i w) = currentTilt w"
  "currentTiltPercentage (lift_body i w) = currentTiltPercentage w"
  "moving (lift_body i w) = moving w"
  "incoming (lift_body i w) = tl (incoming w)"
  "stop (lift_body i w) = (stop w \<or> (incoming w \<noteq> [] \<and> StopMotor \<in> set (hd (incoming w)) \<and> moving w))"
  by (simp_all add: lift_body_def Let_def delay_fields drawBlinds_def emit_def lift_pct_def)

lemma lift_body_alt:
  "lift_body i w =
     delay 250 (w\<lparr>currentLift := word_of_int i,
                  currentLiftPercentage := lift_pct (word_of_int i),
                  out := out w @ [DrawBlinds (word_of_int i) (currentTilt w),
                                  SetLiftPercentage (lift_pct (word_of_int i)),
                                  PrintLifting (word_of_int i)]\<rparr>)"
  by (simp add: lift_body_def Let_def drawBlinds_def emit_def lift_pct_def)

lemma lift_body_out:
  "\<exists>E. out (lift_body i w) =
         out w @ [DrawBlinds (word_of_int i) (currentTilt w),
                  SetLiftPercentage (lift_pct (word_of_int i)),
                  PrintLifting (word_of_int i)] @ E
       \<and> (\<forall>e\<in>set E. \<not> is_lift_step e \<and> \<not> is_tilt_step e)"
  unfolding lift_body_alt
  using delay_out [of 250 "w\<lparr>currentLift := word_of_int i,
                  currentLiftPercentage := lift_pct (word_of_int i),
                  out := out w @ [DrawBlinds (word_of_int i) (currentTilt w),
                                  SetLiftPercentage (lift_pct (word_of_int i)),
                                  PrintLifting (word_of_int i)]\<rparr>"]
  by simp

lemma lift_positions_append [simp]:
  "lift_positions (xs @ ys) = lift_positions xs @ lift_positions ys"
  by (simp add: lift_positions_def)

lemma lift_percentages_append [simp]:
  "lift_percentages (xs @ ys) = lift_percentages xs @ lift_percentages ys"
  by (simp add: lift_percentages_def)

lemma lift_positions_Nil [simp]: "lift_positions [] = []"
  by (simp add: lift_positions_def)

lemma lift_positions_Cons [simp]:
  "lift_positions (e # es) = (case e of PrintLifting v \<Rightarrow> [v] | _ \<Rightarrow> []) @ lift_positions es"
  by (simp add: lift_positions_def)

lemma lift_percentages_Nil [simp]: "lift_percentages [] = []"
  by (simp add: lift_percentages_def)

lemma lift_percentages_Cons [simp]:
  "lift_percentages (e # es) = (case e of SetLiftPercentage p \<Rightarrow> [p] | _ \<Rightarrow> []) @ lift_percentages es"
  by (simp add: lift_percentages_def)

lemma no_lift_step:
  "\<forall>e\<in>set E. \<not> is_lift_step e \<Longrightarrow> lift_positions E = [] \<and> lift_percentages E = []"
proof (induction E)
  case Nil
  then show ?case by simp
next
  case (Cons e E)
  then show ?case
    by (cases e) simp_all
qed

lemma lift_run_fields:
  "currentTilt (lift_run n step i w) = currentTilt w"
  "currentTiltPercentage (lift_run n step i w) = currentTiltPercentage w"
  by (induction n arbitrary: i w; simp add: lift_body_fields)+

lemma lift_taken_le: "lift_taken n step i w \<le> n"
  by (induction n arbitrary: i w) auto

lemma lift_run_current:
  "currentLift (lift_run n step i w) =
     (if lift_taken n step i w = 0 then currentLift w
      else word_of_int (i + (int (lift_taken n step i w) - 1) * step))"
proof (induction n arbitrary: i w)
  case 0
  then show ?case by simp
next
  case (Suc n)
  show ?case
  proof (cases "stop w")
    case True
    then show ?thesis by simp
  next
    case False
    then show ?thesis
      by (simp add: Suc.IH lift_body_fields algebra_simps)
  qed
qed

lemma lift_run_percentage:
  "currentLiftPercentage (lift_run n step i w) =
     (if lift_taken n step i w = 0 then currentLiftPercentage w
      else lift_pct (currentLift (lift_run n step i w)))"
proof (induction n arbitrary: i w)
  case 0
  then show ?case by simp
next
  case (Suc n)
  show ?case
  proof (cases "stop w")
    case True
    then show ?thesis by simp
  next
    case False
    then show ?thesis
      by (simp add: Suc.IH lift_body_fields lift_run_current)
  qed
qed

lemma lift_run_out:
  "\<exists>E. out (lift_run n step i w) = out w @ E
     \<and> (\<forall>e\<in>set E. \<not> is_tilt_step e)
     \<and> lift_positions E = map word_of_int (ramp i step (lift_taken n step i w))
     \<and> lift_percentages E = map lift_pct (lift_positions E)"
proof (induction n arbitrary: i w)
  case 0
  then show ?case by (simp add: ramp_0)
next
  case (Suc n)
  show ?case
  proof (cases "stop w")
    case True
    then show ?thesis by (simp add: ramp_0)
  next
    case False
    obtain E0 where E0: "out (lift_body i w) =
         out w @ [DrawBlinds (word_of_int i) (currentTilt w),
                  SetLiftPercentage (lift_pct (word_of_int i)),
                  PrintLifting (word_of_int i)] @ E0"
       "\<forall>e\<in>set E0. \<not> is_lift_step e \<and> \<not> is_tilt_step e"
      using lift_body_out by blast
    obtain E1 where E1: "out (lift_run n step (i + step) (lift_body i w)) = out (lift_body i w) @ E1"
       "\<forall>e\<in>set E1. \<not> is_tilt_step e"
       "lift_positions E1 = map word_of_int (ramp (i + step) step (lift_taken n step (i + step) (lift_body i w)))"
       "lift_percentages E1 = map lift_pct (lift_positions E1)"
      using Suc.IH by blast
    let ?E = "[DrawBlinds (word_of_int i) (currentTilt w),
                  SetLiftPercentage (lift_pct (word_of_int i)),
                  PrintLifting (word_of_int i)] @ E0 @ E1"
    have q0: "lift_positions E0 = []" "lift_percentages E0 = []"
      using no_lift_step E0(2) by blast+
    have a: "out (lift_run (Suc n) step i w) = out w @ ?E"
      using False E0(1) E1(1) by simp
    have b: "\<forall>e\<in>set ?E. \<not> is_tilt_step e"
      using E0(2) E1(2) by auto
    have c: "lift_positions ?E = map word_of_int (ramp i step (lift_taken (Suc n) step i w))"
      using False q0 E1(3) by (simp add: ramp_Suc)
    have d: "lift_percentages ?E = map lift_pct (lift_positions ?E)"
      using q0 E1(4) by simp
    from a b c d show ?thesis by blast
  qed
qed

lemma lift_run_quiet:
  "\<not> stop w \<Longrightarrow> \<forall>cbs\<in>set (incoming w). StopMotor \<notin> set cbs
   \<Longrightarrow> lift_taken n step i w = n \<and> \<not> stop (lift_run n step i w)
       \<and> moving (lift_run n step i w) = moving w
       \<and> incoming (lift_run n step i w) = drop n (incoming w)"
proof (induction n arbitrary: i w)
  case 0
  then show ?case by simp
next
  case (Suc n)
  have s1: "\<not> stop (lift_body i w)"
    using Suc.prems by (cases "incoming w") (auto simp: lift_body_fields)
  have q1: "\<forall>cbs\<in>set (incoming (lift_body i w)). StopMotor \<notin> set cbs"
    using Suc.prems(2) by (cases "incoming w") (auto simp: lift_body_fields)
  from Suc.IH [OF s1 q1, of "i + step"] Suc.prems(1) show ?case
    by (simp add: lift_body_fields drop_Suc)
qed

lemma lift_run_cancel:
  "incoming w = qs @ cbs # rest \<Longrightarrow> \<forall>q\<in>set qs. StopMotor \<notin> set q \<Longrightarrow> StopMotor \<in> set cbs
   \<Longrightarrow> \<not> stop w \<Longrightarrow> moving w \<Longrightarrow> length qs < n
   \<Longrightarrow> lift_taken n step i w = Suc (length qs)
       \<and> incoming (lift_run n step i w) = rest
       \<and> stop (lift_run n step i w) = (n = Suc (length qs))
       \<and> moving (lift_run n step i w) = (n = Suc (length qs))"
proof (induction qs arbitrary: n i w)
  case Nil
  then obtain n' where n: "n = Suc n'" by (cases n) auto
  have w1: "stop (lift_body i w)" "moving (lift_body i w)" "incoming (lift_body i w) = rest"
    using Nil.prems by (simp_all add: lift_body_fields)
  show ?case
    using Nil.prems(4) w1 unfolding n by (cases n') simp_all
next
  case (Cons q qs)
  then obtain n' where n: "n = Suc n'" by (cases n) auto
  have w1: "\<not> stop (lift_body i w)" "moving (lift_body i w)"
     "incoming (lift_body i w) = qs @ cbs # rest"
    using Cons.prems by (simp_all add: lift_body_fields)
  have len: "length qs < n'" using Cons.prems(6) n by simp
  have qq: "\<forall>q\<in>set qs. StopMotor \<notin> set q" using Cons.prems(2) by simp
  from Cons.IH [OF w1(3) qq Cons.prems(3) w1(1) w1(2) len, of "i + step"] Cons.prems(4)
  show ?case unfolding n by simp
qed

lemma moveCoversLift_run:
  "t \<noteq> currentLift w \<Longrightarrow>
   moveCoversLift t w =
     Some (emit (DigitalWriteLed False)
       ((lift_run (nat \<bar>uint t - uint (currentLift w)\<bar>)
           (if currentLift w < t then 1 else - 1)
           (uint (currentLift w) + (if currentLift w < t then 1 else - 1))
           (emit (DigitalWriteLed True) (w\<lparr>moving := True\<rparr>)))\<lparr>moving := False\<rparr>))"
proof (cases "currentLift w < t")
  case True
  then have "uint (currentLift w) < uint t" by (simp add: word_less_def)
  then have "uint t + 1 - (uint (currentLift w) + 1) = int (nat \<bar>uint t - uint (currentLift w)\<bar>) * 1"
    by simp
  from lift_loop_run [OF this, of "emit (DigitalWriteLed True) (w\<lparr>moving := True\<rparr>)"] True
  show ?thesis by (simp add: moveCoversLift_def Let_def emit_def)
next
  case False
  assume ne: "t \<noteq> currentLift w"
  from False ne have "uint t < uint (currentLift w)"
    by (metis linorder_neqE_linordered_idom word_less_def word_uint_eq_iff)
  then have "uint t + (- 1) - (uint (currentLift w) + (- 1)) = int (nat \<bar>uint t - uint (currentLift w)\<bar>) * (- 1)"
    by simp
  from lift_loop_run [OF this, of "emit (DigitalWriteLed True) (w\<lparr>moving := True\<rparr>)"] False ne
  show ?thesis by (simp add: moveCoversLift_def Let_def emit_def)
qed

subsection \<open>The tilt loop\<close>

lemma tilt_loop_run:
  "uint tgt + step - i = int n * step \<Longrightarrow> step \<noteq> 0
   \<Longrightarrow> tilt_loop tgt step i w = Some (tilt_run n step i w)"
proof (induction n arbitrary: i w)
  case 0
  then show ?case by (subst tilt_loop.simps) simp
next
  case (Suc n)
  from Suc.prems have ne: "i \<noteq> uint tgt + step" by auto
  from Suc.prems have "uint tgt + step - (i + step) = int n * step"
    by (simp add: algebra_simps)
  from Suc.IH [OF this Suc.prems(2)] ne show ?case
    by (subst tilt_loop.simps) simp
qed


lemma tilt_body_fields:
  "currentTilt (tilt_body i w) = word_of_int i"
  "currentTiltPercentage (tilt_body i w) = tilt_pct (word_of_int i)"
  "currentLift (tilt_body i w) = currentLift w"
  "currentLiftPercentage (tilt_body i w) = currentLiftPercentage w"
  "moving (tilt_body i w) = moving w"
  "incoming (tilt_body i w) = tl (incoming w)"
  "stop (tilt_body i w) = (stop w \<or> (incoming w \<noteq> [] \<and> StopMotor \<in> set (hd (incoming w)) \<and> moving w))"
  by (simp_all add: tilt_body_def Let_def delay_fields drawBlinds_def emit_def tilt_pct_def)

lemma tilt_body_alt:
  "tilt_body i w =
     delay 250 (w\<lparr>currentTilt := word_of_int i,
                  currentTiltPercentage := tilt_pct (word_of_int i),
                  out := out w @ [DrawBlinds (currentLift w) (word_of_int i),
                                  SetTiltPercentage (tilt_pct (word_of_int i)),
                                  PrintTilting (word_of_int i)]\<rparr>)"
  by (simp add: tilt_body_def Let_def drawBlinds_def emit_def tilt_pct_def)

lemma tilt_body_out:
  "\<exists>E. out (tilt_body i w) =
         out w @ [DrawBlinds (currentLift w) (word_of_int i),
                  SetTiltPercentage (tilt_pct (word_of_int i)),
                  PrintTilting (word_of_int i)] @ E
       \<and> (\<forall>e\<in>set E. \<not> is_lift_step e \<and> \<not> is_tilt_step e)"
  unfolding tilt_body_alt
  using delay_out [of 250 "w\<lparr>currentTilt := word_of_int i,
                  currentTiltPercentage := tilt_pct (word_of_int i),
                  out := out w @ [DrawBlinds (currentLift w) (word_of_int i),
                                  SetTiltPercentage (tilt_pct (word_of_int i)),
                                  PrintTilting (word_of_int i)]\<rparr>"]
  by simp

lemma tilt_positions_append [simp]:
  "tilt_positions (xs @ ys) = tilt_positions xs @ tilt_positions ys"
  by (simp add: tilt_positions_def)

lemma tilt_percentages_append [simp]:
  "tilt_percentages (xs @ ys) = tilt_percentages xs @ tilt_percentages ys"
  by (simp add: tilt_percentages_def)

lemma tilt_positions_Nil [simp]: "tilt_positions [] = []"
  by (simp add: tilt_positions_def)

lemma tilt_positions_Cons [simp]:
  "tilt_positions (e # es) = (case e of PrintTilting v \<Rightarrow> [v] | _ \<Rightarrow> []) @ tilt_positions es"
  by (simp add: tilt_positions_def)

lemma tilt_percentages_Nil [simp]: "tilt_percentages [] = []"
  by (simp add: tilt_percentages_def)

lemma tilt_percentages_Cons [simp]:
  "tilt_percentages (e # es) = (case e of SetTiltPercentage p \<Rightarrow> [p] | _ \<Rightarrow> []) @ tilt_percentages es"
  by (simp add: tilt_percentages_def)

lemma no_tilt_step:
  "\<forall>e\<in>set E. \<not> is_tilt_step e \<Longrightarrow> tilt_positions E = [] \<and> tilt_percentages E = []"
proof (induction E)
  case Nil
  then show ?case by simp
next
  case (Cons e E)
  then show ?case
    by (cases e) simp_all
qed

lemma tilt_run_fields:
  "currentLift (tilt_run n step i w) = currentLift w"
  "currentLiftPercentage (tilt_run n step i w) = currentLiftPercentage w"
  by (induction n arbitrary: i w; simp add: tilt_body_fields)+

lemma tilt_taken_le: "tilt_taken n step i w \<le> n"
  by (induction n arbitrary: i w) auto

lemma tilt_run_current:
  "currentTilt (tilt_run n step i w) =
     (if tilt_taken n step i w = 0 then currentTilt w
      else word_of_int (i + (int (tilt_taken n step i w) - 1) * step))"
proof (induction n arbitrary: i w)
  case 0
  then show ?case by simp
next
  case (Suc n)
  show ?case
  proof (cases "stop w")
    case True
    then show ?thesis by simp
  next
    case False
    then show ?thesis
      by (simp add: Suc.IH tilt_body_fields algebra_simps)
  qed
qed

lemma tilt_run_percentage:
  "currentTiltPercentage (tilt_run n step i w) =
     (if tilt_taken n step i w = 0 then currentTiltPercentage w
      else tilt_pct (currentTilt (tilt_run n step i w)))"
proof (induction n arbitrary: i w)
  case 0
  then show ?case by simp
next
  case (Suc n)
  show ?case
  proof (cases "stop w")
    case True
    then show ?thesis by simp
  next
    case False
    then show ?thesis
      by (simp add: Suc.IH tilt_body_fields tilt_run_current)
  qed
qed

lemma tilt_run_out:
  "\<exists>E. out (tilt_run n step i w) = out w @ E
     \<and> (\<forall>e\<in>set E. \<not> is_lift_step e)
     \<and> tilt_positions E = map word_of_int (ramp i step (tilt_taken n step i w))
     \<and> tilt_percentages E = map tilt_pct (tilt_positions E)"
proof (induction n arbitrary: i w)
  case 0
  then show ?case by (simp add: ramp_0)
next
  case (Suc n)
  show ?case
  proof (cases "stop w")
    case True
    then show ?thesis by (simp add: ramp_0)
  next
    case False
    obtain E0 where E0: "out (tilt_body i w) =
         out w @ [DrawBlinds (currentLift w) (word_of_int i),
                  SetTiltPercentage (tilt_pct (word_of_int i)),
                  PrintTilting (word_of_int i)] @ E0"
       "\<forall>e\<in>set E0. \<not> is_lift_step e \<and> \<not> is_tilt_step e"
      using tilt_body_out by blast
    obtain E1 where E1: "out (tilt_run n step (i + step) (tilt_body i w)) = out (tilt_body i w) @ E1"
       "\<forall>e\<in>set E1. \<not> is_lift_step e"
       "tilt_positions E1 = map word_of_int (ramp (i + step) step (tilt_taken n step (i + step) (tilt_body i w)))"
       "tilt_percentages E1 = map tilt_pct (tilt_positions E1)"
      using Suc.IH by blast
    let ?E = "[DrawBlinds (currentLift w) (word_of_int i),
                  SetTiltPercentage (tilt_pct (word_of_int i)),
                  PrintTilting (word_of_int i)] @ E0 @ E1"
    have q0: "tilt_positions E0 = []" "tilt_percentages E0 = []"
      using no_tilt_step E0(2) by blast+
    have a: "out (tilt_run (Suc n) step i w) = out w @ ?E"
      using False E0(1) E1(1) by simp
    have b: "\<forall>e\<in>set ?E. \<not> is_lift_step e"
      using E0(2) E1(2) by auto
    have c: "tilt_positions ?E = map word_of_int (ramp i step (tilt_taken (Suc n) step i w))"
      using False q0 E1(3) by (simp add: ramp_Suc)
    have d: "tilt_percentages ?E = map tilt_pct (tilt_positions ?E)"
      using q0 E1(4) by simp
    from a b c d show ?thesis by blast
  qed
qed

lemma tilt_run_quiet:
  "\<not> stop w \<Longrightarrow> \<forall>cbs\<in>set (incoming w). StopMotor \<notin> set cbs
   \<Longrightarrow> tilt_taken n step i w = n \<and> \<not> stop (tilt_run n step i w)
       \<and> moving (tilt_run n step i w) = moving w
       \<and> incoming (tilt_run n step i w) = drop n (incoming w)"
proof (induction n arbitrary: i w)
  case 0
  then show ?case by simp
next
  case (Suc n)
  have s1: "\<not> stop (tilt_body i w)"
    using Suc.prems by (cases "incoming w") (auto simp: tilt_body_fields)
  have q1: "\<forall>cbs\<in>set (incoming (tilt_body i w)). StopMotor \<notin> set cbs"
    using Suc.prems(2) by (cases "incoming w") (auto simp: tilt_body_fields)
  from Suc.IH [OF s1 q1, of "i + step"] Suc.prems(1) show ?case
    by (simp add: tilt_body_fields drop_Suc)
qed

lemma tilt_run_cancel:
  "incoming w = qs @ cbs # rest \<Longrightarrow> \<forall>q\<in>set qs. StopMotor \<notin> set q \<Longrightarrow> StopMotor \<in> set cbs
   \<Longrightarrow> \<not> stop w \<Longrightarrow> moving w \<Longrightarrow> length qs < n
   \<Longrightarrow> tilt_taken n step i w = Suc (length qs)
       \<and> incoming (tilt_run n step i w) = rest
       \<and> stop (tilt_run n step i w) = (n = Suc (length qs))
       \<and> moving (tilt_run n step i w) = (n = Suc (length qs))"
proof (induction qs arbitrary: n i w)
  case Nil
  then obtain n' where n: "n = Suc n'" by (cases n) auto
  have w1: "stop (tilt_body i w)" "moving (tilt_body i w)" "incoming (tilt_body i w) = rest"
    using Nil.prems by (simp_all add: tilt_body_fields)
  show ?case
    using Nil.prems(4) w1 unfolding n by (cases n') simp_all
next
  case (Cons q qs)
  then obtain n' where n: "n = Suc n'" by (cases n) auto
  have w1: "\<not> stop (tilt_body i w)" "moving (tilt_body i w)"
     "incoming (tilt_body i w) = qs @ cbs # rest"
    using Cons.prems by (simp_all add: tilt_body_fields)
  have len: "length qs < n'" using Cons.prems(6) n by simp
  have qq: "\<forall>q\<in>set qs. StopMotor \<notin> set q" using Cons.prems(2) by simp
  from Cons.IH [OF w1(3) qq Cons.prems(3) w1(1) w1(2) len, of "i + step"] Cons.prems(4)
  show ?case unfolding n by simp
qed

lemma moveCoversTilt_run:
  "t \<noteq> currentTilt w \<Longrightarrow>
   moveCoversTilt t w =
     Some (emit (DigitalWriteLed False)
       ((tilt_run (nat \<bar>uint t - uint (currentTilt w)\<bar>)
           (if currentTilt w < t then 1 else - 1)
           (uint (currentTilt w) + (if currentTilt w < t then 1 else - 1))
           (emit (DigitalWriteLed True) (w\<lparr>moving := True\<rparr>)))\<lparr>moving := False\<rparr>))"
proof (cases "currentTilt w < t")
  case True
  then have "uint (currentTilt w) < uint t" by (simp add: word_less_def)
  then have "uint t + 1 - (uint (currentTilt w) + 1) = int (nat \<bar>uint t - uint (currentTilt w)\<bar>) * 1"
    by simp
  from tilt_loop_run [OF this, of "emit (DigitalWriteLed True) (w\<lparr>moving := True\<rparr>)"] True
  show ?thesis by (simp add: moveCoversTilt_def Let_def emit_def)
next
  case False
  assume ne: "t \<noteq> currentTilt w"
  from False ne have "uint t < uint (currentTilt w)"
    by (metis linorder_neqE_linordered_idom word_less_def word_uint_eq_iff)
  then have "uint t + (- 1) - (uint (currentTilt w) + (- 1)) = int (nat \<bar>uint t - uint (currentTilt w)\<bar>) * (- 1)"
    by simp
  from tilt_loop_run [OF this, of "emit (DigitalWriteLed True) (w\<lparr>moving := True\<rparr>)"] False ne
  show ?thesis by (simp add: moveCoversTilt_def Let_def emit_def)
qed

subsection \<open>Word conversions\<close>

lemma uint_word16_of_int: "0 \<le> k \<Longrightarrow> k < 65536 \<Longrightarrow> uint (word_of_int k :: 16 word) = k"
  by (simp add: uint_word_of_int_eq take_bit_int_eq_self)

lemma uint_word8_of_int: "0 \<le> k \<Longrightarrow> k < 256 \<Longrightarrow> uint (word_of_int k :: 8 word) = k"
  by (simp add: uint_word_of_int_eq take_bit_int_eq_self)

lemma uint8_bounds: "0 \<le> uint (p :: 8 word) \<and> uint p < 256"
  using uint_lt2p [of p] by simp

lemma uint16_bounds: "0 \<le> uint (p :: 16 word) \<and> uint p < 65536"
  using uint_lt2p [of p] by simp

subsection \<open>Ramps and pending targets\<close>

lemma length_ramp: "length (ramp i step n) = n"
  by (simp add: ramp_def)

lemma unit_steps_ramp:
  "step = 1 \<or> step = - 1 \<Longrightarrow> m \<le> n \<Longrightarrow> 0 \<le> c \<Longrightarrow> c < 65536
   \<Longrightarrow> 0 \<le> c + int n * step \<Longrightarrow> c + int n * step < 65536
   \<Longrightarrow> unit_steps (c + int n * step) c
         (map uint (map (word_of_int :: int \<Rightarrow> 16 word) (ramp (c + step) step m)))"
proof (induction m arbitrary: c n)
  case 0
  then show ?case by (simp add: ramp_0)
next
  case (Suc m)
  from Suc.prems(2) obtain n' where n: "n = Suc n'" by (cases n) auto
  have r: "0 \<le> c + step" "c + step < 65536"
    using Suc.prems unfolding n by auto
  have u: "uint (word_of_int (c + step) :: 16 word) = c + step"
    using r by (rule uint_word16_of_int)
  have t: "c + step + int n' * step = c + int n * step"
    by (simp add: n algebra_simps)
  have ih: "unit_steps (c + int n * step) (c + step)
         (map uint (map (word_of_int :: int \<Rightarrow> 16 word) (ramp (c + step + step) step m)))"
    using Suc.IH [of n' "c + step"] Suc.prems r unfolding t n by simp
  have s: "sgn (int n * step) = step"
    using Suc.prems(1) unfolding n by (auto simp: sgn_mult)
  have a: "\<bar>step\<bar> = 1" using Suc.prems(1) by auto
  show ?case
    using ih u s a by (simp add: ramp_Suc)
qed

lemma last_ramp: "0 < m \<Longrightarrow> last (ramp i step m) = i + (int m - 1) * step"
  by (cases m) (simp_all add: ramp_def)

lemma ramp_range:
  assumes "x \<in> set (ramp (c + step) step m)" "m \<le> n" "step = 1 \<or> step = - 1"
    and "lo \<le> c" "lo \<le> c + int n * step" "c \<le> hi" "c + int n * step \<le> hi"
  shows "lo \<le> x \<and> x \<le> hi"
proof -
  from assms(1) obtain k where k: "k < m" "x = c + step + int k * step"
    by (auto simp: ramp_def)
  from k(1) assms(2) have "int k + 1 \<le> int n" by simp
  with k(2) assms(3-) show ?thesis by auto
qed

lemma uint_minus_one_16: "uint (- 1 :: 16 word) = 65535"
  by (simp add: unsigned_minus_1_eq_mask mask_eq_exp_minus_1)

lemma invoke_nextTilt: "nextTilt w \<noteq> - 1 \<Longrightarrow> nextTilt (invoke cb w) \<noteq> - 1"
proof (cases cb)
  case (GoToTiltPercentage p)
  have b: "0 \<le> uint p" "uint p < 256" using uint8_bounds [of p] by simp_all
  have "(uint p * 5) div 100 \<le> 1275 div 100" using b by (intro zdiv_mono1) simp_all
  then have t: "0 \<le> (uint p * 5) div 100" "(uint p * 5) div 100 < 65536"
    using b by (simp_all add: pos_imp_zdiv_nonneg_iff)
  have "uint (word_of_int ((uint p * 5) div 100) :: 16 word) \<noteq> uint (- 1 :: 16 word)"
    using uint_word16_of_int [OF t] \<open>(uint p * 5) div 100 \<le> 1275 div 100\<close>
    by (simp add: uint_minus_one_16)
  then have "(word_of_int ((uint p * 5) div 100) :: 16 word) \<noteq> - 1"
    by (simp only: word_uint_eq_iff not_False_eq_True)
  then show ?thesis
    using GoToTiltPercentage by (simp add: goToTiltPercentage_def Let_def emit_def MAX_TILT_def)
qed (simp_all add: fullOpen_def fullClose_def goToLiftPercentage_def stopMotor_def emit_def Let_def)

lemma invoke_nextLift: "nextLift w \<noteq> - 1 \<Longrightarrow> nextLift (invoke cb w) \<noteq> - 1"
proof (cases cb)
  case (GoToLiftPercentage p)
  have b: "0 \<le> uint p" "uint p < 256" using uint8_bounds [of p] by simp_all
  have "(uint p * 9) div 100 \<le> 2295 div 100" using b by (intro zdiv_mono1) simp_all
  then have t: "0 \<le> (uint p * 9) div 100" "(uint p * 9) div 100 < 65536"
    using b by (simp_all add: pos_imp_zdiv_nonneg_iff)
  have "uint (word_of_int ((uint p * 9) div 100) :: 16 word) \<noteq> uint (- 1 :: 16 word)"
    using uint_word16_of_int [OF t] \<open>(uint p * 9) div 100 \<le> 2295 div 100\<close>
    by (simp add: uint_minus_one_16)
  then have "(word_of_int ((uint p * 9) div 100) :: 16 word) \<noteq> - 1"
    by (simp only: word_uint_eq_iff not_False_eq_True)
  then show ?thesis
    using GoToLiftPercentage by (simp add: goToLiftPercentage_def Let_def emit_def MAX_LIFT_def)
qed (simp_all add: fullOpen_def fullClose_def goToTiltPercentage_def stopMotor_def emit_def Let_def
       MIN_LIFT_def MAX_LIFT_def)

lemma fold_invoke_nextLift: "nextLift w \<noteq> - 1 \<Longrightarrow> nextLift (fold invoke cbs w) \<noteq> - 1"
  by (induction cbs arbitrary: w) (simp_all add: invoke_nextLift)

lemma delay_nextLift: "nextLift w \<noteq> - 1 \<Longrightarrow> nextLift (delay ms w) \<noteq> - 1"
  by (cases "incoming w") (simp_all add: delay_def fold_invoke_nextLift)

lemma fold_invoke_nextTilt: "nextTilt w \<noteq> - 1 \<Longrightarrow> nextTilt (fold invoke cbs w) \<noteq> - 1"
  by (induction cbs arbitrary: w) (simp_all add: invoke_nextTilt)

lemma delay_nextTilt: "nextTilt w \<noteq> - 1 \<Longrightarrow> nextTilt (delay ms w) \<noteq> - 1"
  by (cases "incoming w") (simp_all add: delay_def fold_invoke_nextTilt)

lemma delay_silent:
  "\<forall>cbs\<in>set (incoming w). cbs = [] \<Longrightarrow> delay ms w = w\<lparr>incoming := tl (incoming w)\<rparr>"
  by (cases "incoming w") (simp_all add: delay_def)

subsection \<open>Lift moves\<close>

lemma lift_body_nextTilt: "nextTilt w \<noteq> - 1 \<Longrightarrow> nextTilt (lift_body i w) \<noteq> - 1"
  unfolding lift_body_alt by (rule delay_nextTilt) simp

lemma lift_run_nextTilt: "nextTilt w \<noteq> - 1 \<Longrightarrow> nextTilt (lift_run n step i w) \<noteq> - 1"
  by (induction n arbitrary: i w) (simp_all add: lift_body_nextTilt)

lemma lift_run_moving: "\<not> moving w \<Longrightarrow> \<not> moving (lift_run n step i w)"
  by (induction n arbitrary: i w) (simp_all add: lift_body_fields)

lemma lift_run_silent:
  "\<forall>cbs\<in>set (incoming w). cbs = []
   \<Longrightarrow> nextLift (lift_run n step i w) = nextLift w \<and> nextTilt (lift_run n step i w) = nextTilt w"
proof (induction n arbitrary: i w)
  case 0
  then show ?case by simp
next
  case (Suc n)
  have b: "nextLift (lift_body i w) = nextLift w" "nextTilt (lift_body i w) = nextTilt w"
      "\<forall>cbs\<in>set (incoming (lift_body i w)). cbs = []"
    using Suc.prems unfolding lift_body_alt
    by (cases "incoming w"; simp add: delay_def)+
  from Suc.IH [OF b(3), of "i + step"] b show ?case by simp
qed

text \<open>A move during which no stop request arrives.\<close>

lemma lift_move_quiet:
  assumes ns: "\<not> stop w" and q: "\<forall>cbs\<in>set (incoming w). StopMotor \<notin> set cbs"
  shows "\<exists>w' E. moveCoversLift t w = Some w' \<and> out w' = out w @ E \<and> currentLift w' = t
      \<and> \<not> stop w' \<and> (\<forall>cbs\<in>set (incoming w'). StopMotor \<notin> set cbs)
      \<and> ((\<forall>cbs\<in>set (incoming w). cbs = []) \<longrightarrow>
           (\<forall>cbs\<in>set (incoming w'). cbs = []) \<and> nextLift w' = nextLift w \<and> nextTilt w' = nextTilt w)
      \<and> length (lift_positions E) = nat \<bar>uint t - uint (currentLift w)\<bar>
      \<and> unit_steps (uint t) (uint (currentLift w)) (map uint (lift_positions E))"
proof (cases "t = currentLift w")
  case True
  then show ?thesis using ns q by (simp add: moveCoversLift_def)
next
  case False
  define step :: int where "step = (if currentLift w < t then 1 else - 1)"
  define n where "n = nat \<bar>uint t - uint (currentLift w)\<bar>"
  define w2 where "w2 = emit (DigitalWriteLed True) (w\<lparr>moving := True\<rparr>)"
  define w3 where "w3 = lift_run n step (uint (currentLift w) + step) w2"
  have mv: "moveCoversLift t w = Some (emit (DigitalWriteLed False) (w3\<lparr>moving := False\<rparr>))"
    using moveCoversLift_run [OF False] by (simp add: step_def n_def w2_def w3_def)
  have st: "step = 1 \<or> step = - 1" by (simp add: step_def)
  have ne: "uint t \<noteq> uint (currentLift w)" using False by (simp add: word_uint_eq_iff)
  have tgt: "uint (currentLift w) + int n * step = uint t"
    using ne by (auto simp: step_def n_def word_less_def)
  have npos: "0 < n" using ne by (simp add: n_def)
  have w2: "\<not> stop w2" "\<forall>cbs\<in>set (incoming w2). StopMotor \<notin> set cbs"
      "out w2 = out w @ [DigitalWriteLed True]" "incoming w2 = incoming w"
      "nextLift w2 = nextLift w" "nextTilt w2 = nextTilt w"
    using ns q by (simp_all add: w2_def emit_def)
  from lift_run_quiet [OF w2(1) w2(2), of n step "uint (currentLift w) + step"]
  have run: "lift_taken n step (uint (currentLift w) + step) w2 = n" "\<not> stop w3"
      "incoming w3 = drop n (incoming w2)"
    by (simp_all add: w3_def)
  obtain E where E: "out w3 = out w2 @ E"
      "lift_positions E = map word_of_int (ramp (uint (currentLift w) + step) step n)"
    using lift_run_out [of n step "uint (currentLift w) + step" w2] run(1)
    by (auto simp: w3_def)
  have "currentLift w3 = word_of_int (uint (currentLift w) + step + (int n - 1) * step)"
    using lift_run_current [of n step "uint (currentLift w) + step" w2] run(1) npos
    by (simp add: w3_def)
  also have "uint (currentLift w) + step + (int n - 1) * step = uint t"
    using tgt by (simp add: algebra_simps)
  finally have cur: "currentLift w3 = t" by simp
  have quiet': "\<forall>cbs\<in>set (incoming w3). StopMotor \<notin> set cbs"
    using w2(2) run(3) by (auto dest: in_set_dropD)
  have silent': "(\<forall>cbs\<in>set (incoming w). cbs = []) \<longrightarrow>
           (\<forall>cbs\<in>set (incoming w3). cbs = []) \<and> nextLift w3 = nextLift w \<and> nextTilt w3 = nextTilt w"
    using lift_run_silent [of w2 n step "uint (currentLift w) + step"] w2(4,5,6) run(3)
    by (auto simp: w3_def dest: in_set_dropD)
  let ?E = "[DigitalWriteLed True] @ E @ [DigitalWriteLed False]"
  have o: "out (emit (DigitalWriteLed False) (w3\<lparr>moving := False\<rparr>)) = out w @ ?E"
    using E(1) w2(3) by (simp add: emit_def)
  have p: "lift_positions ?E = map word_of_int (ramp (uint (currentLift w) + step) step n)"
    using E(2) by simp
  have b: "0 \<le> uint (currentLift w)" "uint (currentLift w) < 65536"
      "0 \<le> uint (currentLift w) + int n * step" "uint (currentLift w) + int n * step < 65536"
    using uint16_bounds [of "currentLift w"] uint16_bounds [of t] tgt by simp_all
  have us: "unit_steps (uint t) (uint (currentLift w)) (map uint (lift_positions ?E))"
    using unit_steps_ramp [OF st order_refl b] unfolding p tgt .
  have len: "length (lift_positions ?E) = nat \<bar>uint t - uint (currentLift w)\<bar>"
    unfolding p by (simp add: length_ramp n_def)
  show ?thesis
    using mv o cur run(2) quiet' silent' len us
    by (intro exI [of _ "emit (DigitalWriteLed False) (w3\<lparr>moving := False\<rparr>)"] exI [of _ ?E])
       (simp add: emit_def)
qed

text \<open>A move under any schedule of callbacks: it returns, and touches only its own axis.\<close>

lemma lift_move_any:
  "\<exists>w' E. moveCoversLift t w = Some w' \<and> out w' = out w @ E
      \<and> (\<forall>e\<in>set E. \<not> is_tilt_step e)
      \<and> currentTilt w' = currentTilt w \<and> currentTiltPercentage w' = currentTiltPercentage w
      \<and> (\<not> moving w \<longrightarrow> \<not> moving w')
      \<and> (nextTilt w \<noteq> - 1 \<longrightarrow> nextTilt w' \<noteq> - 1)"
proof (cases "t = currentLift w")
  case True
  then show ?thesis by (simp add: moveCoversLift_def)
next
  case False
  define step :: int where "step = (if currentLift w < t then 1 else - 1)"
  define n where "n = nat \<bar>uint t - uint (currentLift w)\<bar>"
  define w2 where "w2 = emit (DigitalWriteLed True) (w\<lparr>moving := True\<rparr>)"
  define w3 where "w3 = lift_run n step (uint (currentLift w) + step) w2"
  have mv: "moveCoversLift t w = Some (emit (DigitalWriteLed False) (w3\<lparr>moving := False\<rparr>))"
    using moveCoversLift_run [OF False] by (simp add: step_def n_def w2_def w3_def)
  have w2: "out w2 = out w @ [DigitalWriteLed True]" "currentTilt w2 = currentTilt w"
      "currentTiltPercentage w2 = currentTiltPercentage w" "nextTilt w2 = nextTilt w"
    by (simp_all add: w2_def emit_def)
  obtain E where E: "out w3 = out w2 @ E" "\<forall>e\<in>set E. \<not> is_tilt_step e"
    using lift_run_out [of n step "uint (currentLift w) + step" w2]
    by (auto simp: w3_def)
  let ?E = "[DigitalWriteLed True] @ E @ [DigitalWriteLed False]"
  have o: "out (emit (DigitalWriteLed False) (w3\<lparr>moving := False\<rparr>)) = out w @ ?E"
    using E(1) w2(1) by (simp add: emit_def)
  have f: "\<forall>e\<in>set ?E. \<not> is_tilt_step e" using E(2) by simp
  have c: "currentTilt w3 = currentTilt w" "currentTiltPercentage w3 = currentTiltPercentage w"
    using w2(2,3) by (simp_all add: w3_def lift_run_fields)
  have nt: "nextTilt w \<noteq> - 1 \<longrightarrow> nextTilt w3 \<noteq> - 1"
    using lift_run_nextTilt [of w2 n step "uint (currentLift w) + step"] w2(4)
    by (simp add: w3_def)
  show ?thesis
    using mv o f c nt
    by (intro exI [of _ "emit (DigitalWriteLed False) (w3\<lparr>moving := False\<rparr>)"] exI [of _ ?E])
       (simp add: emit_def)
qed

text \<open>A move during which the first stop request arrives in the delay after step \<open>length qs + 1\<close>.\<close>

lemma lift_move_cancel:
  assumes ne0: "t \<noteq> currentLift w" and ns: "\<not> stop w"
    and inc: "incoming w = qs @ cbs # rest"
    and q: "\<forall>q\<in>set qs. StopMotor \<notin> set q" and c: "StopMotor \<in> set cbs"
    and len: "length qs < nat \<bar>uint t - uint (currentLift w)\<bar>"
  shows "\<exists>w' E. moveCoversLift t w = Some w' \<and> out w' = out w @ E
      \<and> length (lift_positions E) = Suc (length qs)
      \<and> unit_steps (uint t) (uint (currentLift w)) (map uint (lift_positions E))
      \<and> currentLift w' = last (lift_positions E)
      \<and> uint (currentLift w') =
          uint (currentLift w) + (int (length qs) + 1) * (if currentLift w < t then 1 else - 1)
      \<and> (currentLift w' = t) = (Suc (length qs) = nat \<bar>uint t - uint (currentLift w)\<bar>)
      \<and> \<not> moving w'
      \<and> stop w' = (Suc (length qs) = nat \<bar>uint t - uint (currentLift w)\<bar>)
      \<and> incoming w' = rest"
proof -
  define step :: int where "step = (if currentLift w < t then 1 else - 1)"
  define n where "n = nat \<bar>uint t - uint (currentLift w)\<bar>"
  define k where "k = Suc (length qs)"
  define w2 where "w2 = emit (DigitalWriteLed True) (w\<lparr>moving := True\<rparr>)"
  define w3 where "w3 = lift_run n step (uint (currentLift w) + step) w2"
  have mv: "moveCoversLift t w = Some (emit (DigitalWriteLed False) (w3\<lparr>moving := False\<rparr>))"
    using moveCoversLift_run [OF ne0] by (simp add: step_def n_def w2_def w3_def)
  have st: "step = 1 \<or> step = - 1" by (simp add: step_def)
  have ne: "uint t \<noteq> uint (currentLift w)" using ne0 by (simp add: word_uint_eq_iff)
  have tgt: "uint (currentLift w) + int n * step = uint t"
    using ne by (auto simp: step_def n_def word_less_def)
  have kn: "k \<le> n" "0 < k" using len by (simp_all add: k_def n_def)
  have w2: "\<not> stop w2" "moving w2" "incoming w2 = qs @ cbs # rest"
      "out w2 = out w @ [DigitalWriteLed True]"
    using ns inc by (simp_all add: w2_def emit_def)
  have ln: "length qs < n" using len by (simp add: n_def)
  from lift_run_cancel [OF w2(3) q c w2(1) w2(2) ln, of step "uint (currentLift w) + step"]
  have run: "lift_taken n step (uint (currentLift w) + step) w2 = k" "incoming w3 = rest"
      "stop w3 = (n = k)"
    by (simp_all add: w3_def k_def)
  obtain E where E: "out w3 = out w2 @ E"
      "lift_positions E = map word_of_int (ramp (uint (currentLift w) + step) step k)"
    using lift_run_out [of n step "uint (currentLift w) + step" w2] run(1)
    by (auto simp: w3_def)
  have "currentLift w3 = word_of_int (uint (currentLift w) + step + (int k - 1) * step)"
    using lift_run_current [of n step "uint (currentLift w) + step" w2] run(1) kn(2)
    by (simp add: w3_def)
  then have cur: "currentLift w3 = word_of_int (last (ramp (uint (currentLift w) + step) step k))"
    using kn(2) by (simp add: last_ramp)
  let ?E = "[DigitalWriteLed True] @ E @ [DigitalWriteLed False]"
  have o: "out (emit (DigitalWriteLed False) (w3\<lparr>moving := False\<rparr>)) = out w @ ?E"
    using E(1) w2(4) by (simp add: emit_def)
  have p: "lift_positions ?E = map word_of_int (ramp (uint (currentLift w) + step) step k)"
    using E(2) by simp
  have nonempty: "ramp (uint (currentLift w) + step) step k \<noteq> []"
    using kn(2) length_ramp [of "uint (currentLift w) + step" step k] by auto
  have cl: "currentLift w3 = last (lift_positions ?E)"
    unfolding p cur using nonempty by (simp add: last_map)
  have b: "0 \<le> uint (currentLift w)" "uint (currentLift w) < 65536"
      "0 \<le> uint (currentLift w) + int n * step" "uint (currentLift w) + int n * step < 65536"
    using uint16_bounds [of "currentLift w"] uint16_bounds [of t] tgt by simp_all
  have us: "unit_steps (uint t) (uint (currentLift w)) (map uint (lift_positions ?E))"
    using unit_steps_ramp [OF st kn(1) b] unfolding p tgt .
  have lp: "length (lift_positions ?E) = Suc (length qs)"
    unfolding p by (simp add: length_ramp k_def)
  have lastin: "last (ramp (uint (currentLift w) + step) step k)
                  \<in> set (ramp (uint (currentLift w) + step) step k)"
    using nonempty by simp
  have rng: "0 \<le> last (ramp (uint (currentLift w) + step) step k)"
      "last (ramp (uint (currentLift w) + step) step k) < 65536"
    using ramp_range [OF lastin kn(1) st, of 0 65535] b by auto
  have "uint (currentLift w3) = uint (currentLift w) + step + (int k - 1) * step"
    unfolding cur using uint_word16_of_int [OF rng] kn(2) by (simp add: last_ramp)
  then have uc: "uint (currentLift w3) = uint (currentLift w) + (int (length qs) + 1) * step"
    by (simp add: k_def algebra_simps)
  have "uint (currentLift w3) = uint t \<longleftrightarrow> k = n"
    using uc tgt st by (auto simp: k_def)
  then have eqt: "(currentLift w3 = t) = (k = n)"
    by (simp add: word_uint_eq_iff)
  show ?thesis
    using mv o lp us cl uc eqt run(2,3)
    by (intro exI [of _ "emit (DigitalWriteLed False) (w3\<lparr>moving := False\<rparr>)"] exI [of _ ?E])
       (auto simp: emit_def step_def k_def n_def)
qed

text \<open>A move that starts with the stop flag still set from before.\<close>

lemma lift_move_stale_stop:
  assumes "stop w" "t \<noteq> currentLift w"
  shows "moveCoversLift t w =
     Some (w\<lparr>stop := False, moving := False,
             out := out w @ [DigitalWriteLed True, DigitalWriteLed False]\<rparr>)"
proof -
  have ne: "uint t \<noteq> uint (currentLift w)" using assms(2) by (simp add: word_uint_eq_iff)
  then obtain n' where n: "nat \<bar>uint t - uint (currentLift w)\<bar> = Suc n'"
    by (cases "nat \<bar>uint t - uint (currentLift w)\<bar>") auto
  show ?thesis
    using assms(1) unfolding moveCoversLift_run [OF assms(2)] n
    by (simp add: emit_def)
qed

text \<open>Why a run of the loop stops where it stops, under any schedule of callbacks.\<close>

lemma lift_run_outcome:
  "moving w \<Longrightarrow>
   incoming (lift_run n step i w) = drop (lift_taken n step i w) (incoming w)
   \<and> (lift_taken n step i w = n
      \<or> (lift_taken n step i w < n
          \<and> (if lift_taken n step i w = 0 then stop w
              else lift_taken n step i w \<le> length (incoming w)
                   \<and> StopMotor \<in> set (incoming w ! (lift_taken n step i w - 1)))))"
proof (induction n arbitrary: i w)
  case 0
  then show ?case by simp
next
  case (Suc n)
  show ?case
  proof (cases "stop w")
    case True
    then show ?thesis by simp
  next
    case False
    define w1 where "w1 = lift_body i w"
    define k where "k = lift_taken n step (i + step) w1"
    have m1: "moving w1" using Suc.prems by (simp add: w1_def lift_body_fields)
    have inc1: "incoming w1 = tl (incoming w)" by (simp add: w1_def lift_body_fields)
    have st1: "stop w1 = (incoming w \<noteq> [] \<and> StopMotor \<in> set (hd (incoming w)))"
      using False Suc.prems by (simp add: w1_def lift_body_fields)
    from Suc.IH [OF m1, of "i + step"]
    have ih: "incoming (lift_run n step (i + step) w1) = drop k (incoming w1)"
        "k = n \<or> (k < n \<and> (if k = 0 then stop w1
              else k \<le> length (incoming w1) \<and> StopMotor \<in> set (incoming w1 ! (k - 1))))"
      by (auto simp: k_def split: if_splits)
    have run: "lift_run (Suc n) step i w = lift_run n step (i + step) w1"
        "lift_taken (Suc n) step i w = Suc k"
      using False by (simp_all add: w1_def k_def)
    have a: "incoming (lift_run (Suc n) step i w) = drop (Suc k) (incoming w)"
      unfolding run using ih(1) inc1 by (simp add: drop_Suc)
    have b: "Suc k = Suc n \<or> (Suc k < Suc n
          \<and> Suc k \<le> length (incoming w) \<and> StopMotor \<in> set (incoming w ! k))"
    proof (cases "k = n")
      case True
      then show ?thesis by simp
    next
      case kn: False
      with ih(2) have lt: "k < n" and ev: "if k = 0 then stop w1
              else k \<le> length (incoming w1) \<and> StopMotor \<in> set (incoming w1 ! (k - 1))"
        by auto
      show ?thesis
      proof (cases "k = 0")
        case True
        with ev st1 have "incoming w \<noteq> []" "StopMotor \<in> set (hd (incoming w))" by simp_all
        then show ?thesis using True lt by (cases "incoming w") simp_all
      next
        case k0: False
        with ev inc1 have e: "k \<le> length (tl (incoming w))"
            "StopMotor \<in> set (tl (incoming w) ! (k - 1))" by simp_all
        then show ?thesis using k0 lt by (cases "incoming w"; cases k) simp_all
      qed
    qed
    show ?thesis unfolding run(2) using a b unfolding run(2) by simp
  qed
qed

text \<open>A move under any schedule of callbacks runs to completion or to a cancellation.\<close>

lemma lift_move_outcome:
  "\<exists>w' E. moveCoversLift t w = Some w' \<and> out w' = out w @ E
      \<and> incoming w' = drop (length (lift_positions E)) (incoming w)
      \<and> serviced (uint (currentLift w)) (uint t) (stop w) (incoming w)
           (length (lift_positions E)) (uint (currentLift w'))"
proof (cases "t = currentLift w")
  case True
  then show ?thesis by (simp add: moveCoversLift_def serviced_def)
next
  case False
  define step :: int where "step = (if currentLift w < t then 1 else - 1)"
  define n where "n = nat \<bar>uint t - uint (currentLift w)\<bar>"
  define w2 where "w2 = emit (DigitalWriteLed True) (w\<lparr>moving := True\<rparr>)"
  define w3 where "w3 = lift_run n step (uint (currentLift w) + step) w2"
  define k where "k = lift_taken n step (uint (currentLift w) + step) w2"
  have mv: "moveCoversLift t w = Some (emit (DigitalWriteLed False) (w3\<lparr>moving := False\<rparr>))"
    using moveCoversLift_run [OF False] by (simp add: step_def n_def w2_def w3_def)
  have st: "step = 1 \<or> step = - 1" by (simp add: step_def)
  have ne: "uint t \<noteq> uint (currentLift w)" using False by (simp add: word_uint_eq_iff)
  have tgt: "uint (currentLift w) + int n * step = uint t"
    using ne by (auto simp: step_def n_def word_less_def)
  have sg: "sgn (uint t - uint (currentLift w)) = step"
    using ne by (auto simp: step_def word_less_def)
  have kn: "k \<le> n" by (simp add: k_def lift_taken_le)
  have w2: "moving w2" "out w2 = out w @ [DigitalWriteLed True]" "incoming w2 = incoming w"
      "stop w2 = stop w" "currentLift w2 = currentLift w"
    by (simp_all add: w2_def emit_def)
  from lift_run_outcome [OF w2(1), of n step "uint (currentLift w) + step"]
  have oc: "incoming w3 = drop k (incoming w)"
      "k = n \<or> (k < n \<and> (if k = 0 then stop w
              else k \<le> length (incoming w) \<and> StopMotor \<in> set (incoming w ! (k - 1))))"
    using w2(3,4) by (auto simp: w3_def k_def split: if_splits)
  obtain E where E: "out w3 = out w2 @ E"
      "lift_positions E = map word_of_int (ramp (uint (currentLift w) + step) step k)"
    using lift_run_out [of n step "uint (currentLift w) + step" w2]
    by (auto simp: w3_def k_def)
  have cur: "currentLift w3 = word_of_int (uint (currentLift w) + int k * step)"
    using lift_run_current [of n step "uint (currentLift w) + step" w2] w2(5)
    by (cases "k = 0") (simp_all add: w3_def k_def algebra_simps)
  have b: "0 \<le> uint (currentLift w)" "uint (currentLift w) < 65536"
      "0 \<le> uint t" "uint t < 65536"
    using uint16_bounds [of "currentLift w"] uint16_bounds [of t] by simp_all
  define s0 where "s0 = uint (currentLift w)"
  define t0 where "t0 = uint t"
  have b0: "0 \<le> s0" "s0 < 65536" "0 \<le> t0" "t0 < 65536" "s0 + int n * step = t0"
    using b tgt by (simp_all add: s0_def t0_def)
  have "0 \<le> s0 + int k * step \<and> s0 + int k * step < 65536"
    using st kn b0 by auto
  then have rng: "0 \<le> uint (currentLift w) + int k * step"
      "uint (currentLift w) + int k * step < 65536"
    by (simp_all add: s0_def)
  have fin: "uint (currentLift w3) = uint (currentLift w) + int k * step"
    unfolding cur by (rule uint_word16_of_int [OF rng])
  let ?E = "[DigitalWriteLed True] @ E @ [DigitalWriteLed False]"
  have o: "out (emit (DigitalWriteLed False) (w3\<lparr>moving := False\<rparr>)) = out w @ ?E"
    using E(1) w2(2) by (simp add: emit_def)
  have len: "length (lift_positions ?E) = k"
    using E(2) by (simp add: length_ramp)
  have sv: "serviced (uint (currentLift w)) (uint t) (stop w) (incoming w) k
              (uint (currentLift w3))"
  proof (cases "k = n")
    case True
    then show ?thesis using fin tgt by (simp add: serviced_def n_def)
  next
    case False
    with oc(2) have "k < n" "if k = 0 then stop w
              else k \<le> length (incoming w) \<and> StopMotor \<in> set (incoming w ! (k - 1))"
      by auto
    then show ?thesis using fin sg by (simp add: serviced_def n_def)
  qed
  show ?thesis
    using mv o oc(1) sv unfolding len [symmetric]
    by (intro exI [of _ "emit (DigitalWriteLed False) (w3\<lparr>moving := False\<rparr>)"] exI [of _ ?E])
       (simp add: emit_def)
qed

subsection \<open>Tilt moves\<close>

lemma tilt_body_nextLift: "nextLift w \<noteq> - 1 \<Longrightarrow> nextLift (tilt_body i w) \<noteq> - 1"
  unfolding tilt_body_alt by (rule delay_nextLift) simp

lemma tilt_run_nextLift: "nextLift w \<noteq> - 1 \<Longrightarrow> nextLift (tilt_run n step i w) \<noteq> - 1"
  by (induction n arbitrary: i w) (simp_all add: tilt_body_nextLift)

lemma tilt_run_moving: "\<not> moving w \<Longrightarrow> \<not> moving (tilt_run n step i w)"
  by (induction n arbitrary: i w) (simp_all add: tilt_body_fields)

lemma tilt_run_silent:
  "\<forall>cbs\<in>set (incoming w). cbs = []
   \<Longrightarrow> nextTilt (tilt_run n step i w) = nextTilt w \<and> nextLift (tilt_run n step i w) = nextLift w"
proof (induction n arbitrary: i w)
  case 0
  then show ?case by simp
next
  case (Suc n)
  have b: "nextTilt (tilt_body i w) = nextTilt w" "nextLift (tilt_body i w) = nextLift w"
      "\<forall>cbs\<in>set (incoming (tilt_body i w)). cbs = []"
    using Suc.prems unfolding tilt_body_alt
    by (cases "incoming w"; simp add: delay_def)+
  from Suc.IH [OF b(3), of "i + step"] b show ?case by simp
qed

text \<open>A move during which no stop request arrives.\<close>

lemma tilt_move_quiet:
  assumes ns: "\<not> stop w" and q: "\<forall>cbs\<in>set (incoming w). StopMotor \<notin> set cbs"
  shows "\<exists>w' E. moveCoversTilt t w = Some w' \<and> out w' = out w @ E \<and> currentTilt w' = t
      \<and> \<not> stop w' \<and> (\<forall>cbs\<in>set (incoming w'). StopMotor \<notin> set cbs)
      \<and> ((\<forall>cbs\<in>set (incoming w). cbs = []) \<longrightarrow>
           (\<forall>cbs\<in>set (incoming w'). cbs = []) \<and> nextTilt w' = nextTilt w \<and> nextLift w' = nextLift w)
      \<and> length (tilt_positions E) = nat \<bar>uint t - uint (currentTilt w)\<bar>
      \<and> unit_steps (uint t) (uint (currentTilt w)) (map uint (tilt_positions E))"
proof (cases "t = currentTilt w")
  case True
  then show ?thesis using ns q by (simp add: moveCoversTilt_def)
next
  case False
  define step :: int where "step = (if currentTilt w < t then 1 else - 1)"
  define n where "n = nat \<bar>uint t - uint (currentTilt w)\<bar>"
  define w2 where "w2 = emit (DigitalWriteLed True) (w\<lparr>moving := True\<rparr>)"
  define w3 where "w3 = tilt_run n step (uint (currentTilt w) + step) w2"
  have mv: "moveCoversTilt t w = Some (emit (DigitalWriteLed False) (w3\<lparr>moving := False\<rparr>))"
    using moveCoversTilt_run [OF False] by (simp add: step_def n_def w2_def w3_def)
  have st: "step = 1 \<or> step = - 1" by (simp add: step_def)
  have ne: "uint t \<noteq> uint (currentTilt w)" using False by (simp add: word_uint_eq_iff)
  have tgt: "uint (currentTilt w) + int n * step = uint t"
    using ne by (auto simp: step_def n_def word_less_def)
  have npos: "0 < n" using ne by (simp add: n_def)
  have w2: "\<not> stop w2" "\<forall>cbs\<in>set (incoming w2). StopMotor \<notin> set cbs"
      "out w2 = out w @ [DigitalWriteLed True]" "incoming w2 = incoming w"
      "nextTilt w2 = nextTilt w" "nextLift w2 = nextLift w"
    using ns q by (simp_all add: w2_def emit_def)
  from tilt_run_quiet [OF w2(1) w2(2), of n step "uint (currentTilt w) + step"]
  have run: "tilt_taken n step (uint (currentTilt w) + step) w2 = n" "\<not> stop w3"
      "incoming w3 = drop n (incoming w2)"
    by (simp_all add: w3_def)
  obtain E where E: "out w3 = out w2 @ E"
      "tilt_positions E = map word_of_int (ramp (uint (currentTilt w) + step) step n)"
    using tilt_run_out [of n step "uint (currentTilt w) + step" w2] run(1)
    by (auto simp: w3_def)
  have "currentTilt w3 = word_of_int (uint (currentTilt w) + step + (int n - 1) * step)"
    using tilt_run_current [of n step "uint (currentTilt w) + step" w2] run(1) npos
    by (simp add: w3_def)
  also have "uint (currentTilt w) + step + (int n - 1) * step = uint t"
    using tgt by (simp add: algebra_simps)
  finally have cur: "currentTilt w3 = t" by simp
  have quiet': "\<forall>cbs\<in>set (incoming w3). StopMotor \<notin> set cbs"
    using w2(2) run(3) by (auto dest: in_set_dropD)
  have silent': "(\<forall>cbs\<in>set (incoming w). cbs = []) \<longrightarrow>
           (\<forall>cbs\<in>set (incoming w3). cbs = []) \<and> nextTilt w3 = nextTilt w \<and> nextLift w3 = nextLift w"
    using tilt_run_silent [of w2 n step "uint (currentTilt w) + step"] w2(4,5,6) run(3)
    by (auto simp: w3_def dest: in_set_dropD)
  let ?E = "[DigitalWriteLed True] @ E @ [DigitalWriteLed False]"
  have o: "out (emit (DigitalWriteLed False) (w3\<lparr>moving := False\<rparr>)) = out w @ ?E"
    using E(1) w2(3) by (simp add: emit_def)
  have p: "tilt_positions ?E = map word_of_int (ramp (uint (currentTilt w) + step) step n)"
    using E(2) by simp
  have b: "0 \<le> uint (currentTilt w)" "uint (currentTilt w) < 65536"
      "0 \<le> uint (currentTilt w) + int n * step" "uint (currentTilt w) + int n * step < 65536"
    using uint16_bounds [of "currentTilt w"] uint16_bounds [of t] tgt by simp_all
  have us: "unit_steps (uint t) (uint (currentTilt w)) (map uint (tilt_positions ?E))"
    using unit_steps_ramp [OF st order_refl b] unfolding p tgt .
  have len: "length (tilt_positions ?E) = nat \<bar>uint t - uint (currentTilt w)\<bar>"
    unfolding p by (simp add: length_ramp n_def)
  show ?thesis
    using mv o cur run(2) quiet' silent' len us
    by (intro exI [of _ "emit (DigitalWriteLed False) (w3\<lparr>moving := False\<rparr>)"] exI [of _ ?E])
       (simp add: emit_def)
qed

text \<open>A move under any schedule of callbacks: it returns, and touches only its own axis.\<close>

lemma tilt_move_any:
  "\<exists>w' E. moveCoversTilt t w = Some w' \<and> out w' = out w @ E
      \<and> (\<forall>e\<in>set E. \<not> is_lift_step e)
      \<and> currentLift w' = currentLift w \<and> currentLiftPercentage w' = currentLiftPercentage w
      \<and> (\<not> moving w \<longrightarrow> \<not> moving w')
      \<and> (nextLift w \<noteq> - 1 \<longrightarrow> nextLift w' \<noteq> - 1)"
proof (cases "t = currentTilt w")
  case True
  then show ?thesis by (simp add: moveCoversTilt_def)
next
  case False
  define step :: int where "step = (if currentTilt w < t then 1 else - 1)"
  define n where "n = nat \<bar>uint t - uint (currentTilt w)\<bar>"
  define w2 where "w2 = emit (DigitalWriteLed True) (w\<lparr>moving := True\<rparr>)"
  define w3 where "w3 = tilt_run n step (uint (currentTilt w) + step) w2"
  have mv: "moveCoversTilt t w = Some (emit (DigitalWriteLed False) (w3\<lparr>moving := False\<rparr>))"
    using moveCoversTilt_run [OF False] by (simp add: step_def n_def w2_def w3_def)
  have w2: "out w2 = out w @ [DigitalWriteLed True]" "currentLift w2 = currentLift w"
      "currentLiftPercentage w2 = currentLiftPercentage w" "nextLift w2 = nextLift w"
    by (simp_all add: w2_def emit_def)
  obtain E where E: "out w3 = out w2 @ E" "\<forall>e\<in>set E. \<not> is_lift_step e"
    using tilt_run_out [of n step "uint (currentTilt w) + step" w2]
    by (auto simp: w3_def)
  let ?E = "[DigitalWriteLed True] @ E @ [DigitalWriteLed False]"
  have o: "out (emit (DigitalWriteLed False) (w3\<lparr>moving := False\<rparr>)) = out w @ ?E"
    using E(1) w2(1) by (simp add: emit_def)
  have f: "\<forall>e\<in>set ?E. \<not> is_lift_step e" using E(2) by simp
  have c: "currentLift w3 = currentLift w" "currentLiftPercentage w3 = currentLiftPercentage w"
    using w2(2,3) by (simp_all add: w3_def tilt_run_fields)
  have nt: "nextLift w \<noteq> - 1 \<longrightarrow> nextLift w3 \<noteq> - 1"
    using tilt_run_nextLift [of w2 n step "uint (currentTilt w) + step"] w2(4)
    by (simp add: w3_def)
  show ?thesis
    using mv o f c nt
    by (intro exI [of _ "emit (DigitalWriteLed False) (w3\<lparr>moving := False\<rparr>)"] exI [of _ ?E])
       (simp add: emit_def)
qed

text \<open>A move during which the first stop request arrives in the delay after step \<open>length qs + 1\<close>.\<close>

lemma tilt_move_cancel:
  assumes ne0: "t \<noteq> currentTilt w" and ns: "\<not> stop w"
    and inc: "incoming w = qs @ cbs # rest"
    and q: "\<forall>q\<in>set qs. StopMotor \<notin> set q" and c: "StopMotor \<in> set cbs"
    and len: "length qs < nat \<bar>uint t - uint (currentTilt w)\<bar>"
  shows "\<exists>w' E. moveCoversTilt t w = Some w' \<and> out w' = out w @ E
      \<and> length (tilt_positions E) = Suc (length qs)
      \<and> unit_steps (uint t) (uint (currentTilt w)) (map uint (tilt_positions E))
      \<and> currentTilt w' = last (tilt_positions E)
      \<and> uint (currentTilt w') =
          uint (currentTilt w) + (int (length qs) + 1) * (if currentTilt w < t then 1 else - 1)
      \<and> (currentTilt w' = t) = (Suc (length qs) = nat \<bar>uint t - uint (currentTilt w)\<bar>)
      \<and> \<not> moving w'
      \<and> stop w' = (Suc (length qs) = nat \<bar>uint t - uint (currentTilt w)\<bar>)
      \<and> incoming w' = rest"
proof -
  define step :: int where "step = (if currentTilt w < t then 1 else - 1)"
  define n where "n = nat \<bar>uint t - uint (currentTilt w)\<bar>"
  define k where "k = Suc (length qs)"
  define w2 where "w2 = emit (DigitalWriteLed True) (w\<lparr>moving := True\<rparr>)"
  define w3 where "w3 = tilt_run n step (uint (currentTilt w) + step) w2"
  have mv: "moveCoversTilt t w = Some (emit (DigitalWriteLed False) (w3\<lparr>moving := False\<rparr>))"
    using moveCoversTilt_run [OF ne0] by (simp add: step_def n_def w2_def w3_def)
  have st: "step = 1 \<or> step = - 1" by (simp add: step_def)
  have ne: "uint t \<noteq> uint (currentTilt w)" using ne0 by (simp add: word_uint_eq_iff)
  have tgt: "uint (currentTilt w) + int n * step = uint t"
    using ne by (auto simp: step_def n_def word_less_def)
  have kn: "k \<le> n" "0 < k" using len by (simp_all add: k_def n_def)
  have w2: "\<not> stop w2" "moving w2" "incoming w2 = qs @ cbs # rest"
      "out w2 = out w @ [DigitalWriteLed True]"
    using ns inc by (simp_all add: w2_def emit_def)
  have ln: "length qs < n" using len by (simp add: n_def)
  from tilt_run_cancel [OF w2(3) q c w2(1) w2(2) ln, of step "uint (currentTilt w) + step"]
  have run: "tilt_taken n step (uint (currentTilt w) + step) w2 = k" "incoming w3 = rest"
      "stop w3 = (n = k)"
    by (simp_all add: w3_def k_def)
  obtain E where E: "out w3 = out w2 @ E"
      "tilt_positions E = map word_of_int (ramp (uint (currentTilt w) + step) step k)"
    using tilt_run_out [of n step "uint (currentTilt w) + step" w2] run(1)
    by (auto simp: w3_def)
  have "currentTilt w3 = word_of_int (uint (currentTilt w) + step + (int k - 1) * step)"
    using tilt_run_current [of n step "uint (currentTilt w) + step" w2] run(1) kn(2)
    by (simp add: w3_def)
  then have cur: "currentTilt w3 = word_of_int (last (ramp (uint (currentTilt w) + step) step k))"
    using kn(2) by (simp add: last_ramp)
  let ?E = "[DigitalWriteLed True] @ E @ [DigitalWriteLed False]"
  have o: "out (emit (DigitalWriteLed False) (w3\<lparr>moving := False\<rparr>)) = out w @ ?E"
    using E(1) w2(4) by (simp add: emit_def)
  have p: "tilt_positions ?E = map word_of_int (ramp (uint (currentTilt w) + step) step k)"
    using E(2) by simp
  have nonempty: "ramp (uint (currentTilt w) + step) step k \<noteq> []"
    using kn(2) length_ramp [of "uint (currentTilt w) + step" step k] by auto
  have cl: "currentTilt w3 = last (tilt_positions ?E)"
    unfolding p cur using nonempty by (simp add: last_map)
  have b: "0 \<le> uint (currentTilt w)" "uint (currentTilt w) < 65536"
      "0 \<le> uint (currentTilt w) + int n * step" "uint (currentTilt w) + int n * step < 65536"
    using uint16_bounds [of "currentTilt w"] uint16_bounds [of t] tgt by simp_all
  have us: "unit_steps (uint t) (uint (currentTilt w)) (map uint (tilt_positions ?E))"
    using unit_steps_ramp [OF st kn(1) b] unfolding p tgt .
  have lp: "length (tilt_positions ?E) = Suc (length qs)"
    unfolding p by (simp add: length_ramp k_def)
  have lastin: "last (ramp (uint (currentTilt w) + step) step k)
                  \<in> set (ramp (uint (currentTilt w) + step) step k)"
    using nonempty by simp
  have rng: "0 \<le> last (ramp (uint (currentTilt w) + step) step k)"
      "last (ramp (uint (currentTilt w) + step) step k) < 65536"
    using ramp_range [OF lastin kn(1) st, of 0 65535] b by auto
  have "uint (currentTilt w3) = uint (currentTilt w) + step + (int k - 1) * step"
    unfolding cur using uint_word16_of_int [OF rng] kn(2) by (simp add: last_ramp)
  then have uc: "uint (currentTilt w3) = uint (currentTilt w) + (int (length qs) + 1) * step"
    by (simp add: k_def algebra_simps)
  have "uint (currentTilt w3) = uint t \<longleftrightarrow> k = n"
    using uc tgt st by (auto simp: k_def)
  then have eqt: "(currentTilt w3 = t) = (k = n)"
    by (simp add: word_uint_eq_iff)
  show ?thesis
    using mv o lp us cl uc eqt run(2,3)
    by (intro exI [of _ "emit (DigitalWriteLed False) (w3\<lparr>moving := False\<rparr>)"] exI [of _ ?E])
       (auto simp: emit_def step_def k_def n_def)
qed

text \<open>A move that starts with the stop flag still set from before.\<close>

lemma tilt_move_stale_stop:
  assumes "stop w" "t \<noteq> currentTilt w"
  shows "moveCoversTilt t w =
     Some (w\<lparr>stop := False, moving := False,
             out := out w @ [DigitalWriteLed True, DigitalWriteLed False]\<rparr>)"
proof -
  have ne: "uint t \<noteq> uint (currentTilt w)" using assms(2) by (simp add: word_uint_eq_iff)
  then obtain n' where n: "nat \<bar>uint t - uint (currentTilt w)\<bar> = Suc n'"
    by (cases "nat \<bar>uint t - uint (currentTilt w)\<bar>") auto
  show ?thesis
    using assms(1) unfolding moveCoversTilt_run [OF assms(2)] n
    by (simp add: emit_def)
qed

text \<open>Why a run of the loop stops where it stops, under any schedule of callbacks.\<close>

lemma tilt_run_outcome:
  "moving w \<Longrightarrow>
   incoming (tilt_run n step i w) = drop (tilt_taken n step i w) (incoming w)
   \<and> (tilt_taken n step i w = n
      \<or> (tilt_taken n step i w < n
          \<and> (if tilt_taken n step i w = 0 then stop w
              else tilt_taken n step i w \<le> length (incoming w)
                   \<and> StopMotor \<in> set (incoming w ! (tilt_taken n step i w - 1)))))"
proof (induction n arbitrary: i w)
  case 0
  then show ?case by simp
next
  case (Suc n)
  show ?case
  proof (cases "stop w")
    case True
    then show ?thesis by simp
  next
    case False
    define w1 where "w1 = tilt_body i w"
    define k where "k = tilt_taken n step (i + step) w1"
    have m1: "moving w1" using Suc.prems by (simp add: w1_def tilt_body_fields)
    have inc1: "incoming w1 = tl (incoming w)" by (simp add: w1_def tilt_body_fields)
    have st1: "stop w1 = (incoming w \<noteq> [] \<and> StopMotor \<in> set (hd (incoming w)))"
      using False Suc.prems by (simp add: w1_def tilt_body_fields)
    from Suc.IH [OF m1, of "i + step"]
    have ih: "incoming (tilt_run n step (i + step) w1) = drop k (incoming w1)"
        "k = n \<or> (k < n \<and> (if k = 0 then stop w1
              else k \<le> length (incoming w1) \<and> StopMotor \<in> set (incoming w1 ! (k - 1))))"
      by (auto simp: k_def split: if_splits)
    have run: "tilt_run (Suc n) step i w = tilt_run n step (i + step) w1"
        "tilt_taken (Suc n) step i w = Suc k"
      using False by (simp_all add: w1_def k_def)
    have a: "incoming (tilt_run (Suc n) step i w) = drop (Suc k) (incoming w)"
      unfolding run using ih(1) inc1 by (simp add: drop_Suc)
    have b: "Suc k = Suc n \<or> (Suc k < Suc n
          \<and> Suc k \<le> length (incoming w) \<and> StopMotor \<in> set (incoming w ! k))"
    proof (cases "k = n")
      case True
      then show ?thesis by simp
    next
      case kn: False
      with ih(2) have lt: "k < n" and ev: "if k = 0 then stop w1
              else k \<le> length (incoming w1) \<and> StopMotor \<in> set (incoming w1 ! (k - 1))"
        by auto
      show ?thesis
      proof (cases "k = 0")
        case True
        with ev st1 have "incoming w \<noteq> []" "StopMotor \<in> set (hd (incoming w))" by simp_all
        then show ?thesis using True lt by (cases "incoming w") simp_all
      next
        case k0: False
        with ev inc1 have e: "k \<le> length (tl (incoming w))"
            "StopMotor \<in> set (tl (incoming w) ! (k - 1))" by simp_all
        then show ?thesis using k0 lt by (cases "incoming w"; cases k) simp_all
      qed
    qed
    show ?thesis unfolding run(2) using a b unfolding run(2) by simp
  qed
qed

text \<open>A move under any schedule of callbacks runs to completion or to a cancellation.\<close>

lemma tilt_move_outcome:
  "\<exists>w' E. moveCoversTilt t w = Some w' \<and> out w' = out w @ E
      \<and> incoming w' = drop (length (tilt_positions E)) (incoming w)
      \<and> serviced (uint (currentTilt w)) (uint t) (stop w) (incoming w)
           (length (tilt_positions E)) (uint (currentTilt w'))"
proof (cases "t = currentTilt w")
  case True
  then show ?thesis by (simp add: moveCoversTilt_def serviced_def)
next
  case False
  define step :: int where "step = (if currentTilt w < t then 1 else - 1)"
  define n where "n = nat \<bar>uint t - uint (currentTilt w)\<bar>"
  define w2 where "w2 = emit (DigitalWriteLed True) (w\<lparr>moving := True\<rparr>)"
  define w3 where "w3 = tilt_run n step (uint (currentTilt w) + step) w2"
  define k where "k = tilt_taken n step (uint (currentTilt w) + step) w2"
  have mv: "moveCoversTilt t w = Some (emit (DigitalWriteLed False) (w3\<lparr>moving := False\<rparr>))"
    using moveCoversTilt_run [OF False] by (simp add: step_def n_def w2_def w3_def)
  have st: "step = 1 \<or> step = - 1" by (simp add: step_def)
  have ne: "uint t \<noteq> uint (currentTilt w)" using False by (simp add: word_uint_eq_iff)
  have tgt: "uint (currentTilt w) + int n * step = uint t"
    using ne by (auto simp: step_def n_def word_less_def)
  have sg: "sgn (uint t - uint (currentTilt w)) = step"
    using ne by (auto simp: step_def word_less_def)
  have kn: "k \<le> n" by (simp add: k_def tilt_taken_le)
  have w2: "moving w2" "out w2 = out w @ [DigitalWriteLed True]" "incoming w2 = incoming w"
      "stop w2 = stop w" "currentTilt w2 = currentTilt w"
    by (simp_all add: w2_def emit_def)
  from tilt_run_outcome [OF w2(1), of n step "uint (currentTilt w) + step"]
  have oc: "incoming w3 = drop k (incoming w)"
      "k = n \<or> (k < n \<and> (if k = 0 then stop w
              else k \<le> length (incoming w) \<and> StopMotor \<in> set (incoming w ! (k - 1))))"
    using w2(3,4) by (auto simp: w3_def k_def split: if_splits)
  obtain E where E: "out w3 = out w2 @ E"
      "tilt_positions E = map word_of_int (ramp (uint (currentTilt w) + step) step k)"
    using tilt_run_out [of n step "uint (currentTilt w) + step" w2]
    by (auto simp: w3_def k_def)
  have cur: "currentTilt w3 = word_of_int (uint (currentTilt w) + int k * step)"
    using tilt_run_current [of n step "uint (currentTilt w) + step" w2] w2(5)
    by (cases "k = 0") (simp_all add: w3_def k_def algebra_simps)
  have b: "0 \<le> uint (currentTilt w)" "uint (currentTilt w) < 65536"
      "0 \<le> uint t" "uint t < 65536"
    using uint16_bounds [of "currentTilt w"] uint16_bounds [of t] by simp_all
  define s0 where "s0 = uint (currentTilt w)"
  define t0 where "t0 = uint t"
  have b0: "0 \<le> s0" "s0 < 65536" "0 \<le> t0" "t0 < 65536" "s0 + int n * step = t0"
    using b tgt by (simp_all add: s0_def t0_def)
  have "0 \<le> s0 + int k * step \<and> s0 + int k * step < 65536"
    using st kn b0 by auto
  then have rng: "0 \<le> uint (currentTilt w) + int k * step"
      "uint (currentTilt w) + int k * step < 65536"
    by (simp_all add: s0_def)
  have fin: "uint (currentTilt w3) = uint (currentTilt w) + int k * step"
    unfolding cur by (rule uint_word16_of_int [OF rng])
  let ?E = "[DigitalWriteLed True] @ E @ [DigitalWriteLed False]"
  have o: "out (emit (DigitalWriteLed False) (w3\<lparr>moving := False\<rparr>)) = out w @ ?E"
    using E(1) w2(2) by (simp add: emit_def)
  have len: "length (tilt_positions ?E) = k"
    using E(2) by (simp add: length_ramp)
  have sv: "serviced (uint (currentTilt w)) (uint t) (stop w) (incoming w) k
              (uint (currentTilt w3))"
  proof (cases "k = n")
    case True
    then show ?thesis using fin tgt by (simp add: serviced_def n_def)
  next
    case False
    with oc(2) have "k < n" "if k = 0 then stop w
              else k \<le> length (incoming w) \<and> StopMotor \<in> set (incoming w ! (k - 1))"
      by auto
    then show ?thesis using fin sg by (simp add: serviced_def n_def)
  qed
  show ?thesis
    using mv o oc(1) sv unfolding len [symmetric]
    by (intro exI [of _ "emit (DigitalWriteLed False) (w3\<lparr>moving := False\<rparr>)"] exI [of _ ?E])
       (simp add: emit_def)
qed

subsection \<open>Lift percentages\<close>

lemma lift_pct_small: "uint v \<le> MAX_LIFT \<Longrightarrow> uint (lift_pct v) = (uint v * 100) div MAX_LIFT"
proof -
  assume a: "uint v \<le> MAX_LIFT"
  have b: "0 \<le> uint v" by simp
  have "(uint v * 100) div 9 \<le> 900 div 9" using a by (intro zdiv_mono1) (simp_all add: MAX_LIFT_def)
  then have r: "0 \<le> (uint v * 100) div 9" "(uint v * 100) div 9 < 256"
    using b by (simp_all add: pos_imp_zdiv_nonneg_iff)
  show ?thesis using uint_word8_of_int [OF r] by (simp add: lift_pct_def MAX_LIFT_def)
qed

text \<open>A lift move within the limits, under any schedule of callbacks.\<close>

lemma lift_move_percentages:
  assumes sr: "uint (currentLift w) \<le> MAX_LIFT" and tr: "uint t \<le> MAX_LIFT"
  shows "\<exists>w' E. moveCoversLift t w = Some w' \<and> out w' = out w @ E
      \<and> map uint (lift_percentages E) = map (\<lambda>v. (uint v * 100) div MAX_LIFT) (lift_positions E)
      \<and> (\<forall>v\<in>set (lift_positions E). uint v \<le> MAX_LIFT)
      \<and> uint (currentLift w') \<le> MAX_LIFT
      \<and> (lift_positions E \<noteq> [] \<longrightarrow> currentLift w' = last (lift_positions E))
      \<and> (lift_positions E \<noteq> [] \<or> uint (currentLiftPercentage w) = (uint (currentLift w) * 100) div MAX_LIFT
           \<longrightarrow> uint (currentLiftPercentage w') = (uint (currentLift w') * 100) div MAX_LIFT)"
proof (cases "t = currentLift w")
  case True
  then show ?thesis using sr by (simp add: moveCoversLift_def)
next
  case False
  define step :: int where "step = (if currentLift w < t then 1 else - 1)"
  define n where "n = nat \<bar>uint t - uint (currentLift w)\<bar>"
  define w2 where "w2 = emit (DigitalWriteLed True) (w\<lparr>moving := True\<rparr>)"
  define w3 where "w3 = lift_run n step (uint (currentLift w) + step) w2"
  define m where "m = lift_taken n step (uint (currentLift w) + step) w2"
  have mv: "moveCoversLift t w = Some (emit (DigitalWriteLed False) (w3\<lparr>moving := False\<rparr>))"
    using moveCoversLift_run [OF False] by (simp add: step_def n_def w2_def w3_def)
  have st: "step = 1 \<or> step = - 1" by (simp add: step_def)
  have ne: "uint t \<noteq> uint (currentLift w)" using False by (simp add: word_uint_eq_iff)
  have tgt: "uint (currentLift w) + int n * step = uint t"
    using ne by (auto simp: step_def n_def word_less_def)
  have mn: "m \<le> n" by (simp add: m_def lift_taken_le)
  have w2: "out w2 = out w @ [DigitalWriteLed True]" "currentLift w2 = currentLift w"
      "currentLiftPercentage w2 = currentLiftPercentage w"
    by (simp_all add: w2_def emit_def)
  obtain E where E: "out w3 = out w2 @ E"
      "lift_positions E = map word_of_int (ramp (uint (currentLift w) + step) step m)"
      "lift_percentages E = map lift_pct (lift_positions E)"
    using lift_run_out [of n step "uint (currentLift w) + step" w2]
    by (auto simp: w3_def m_def)
  have inr: "0 \<le> x \<and> x \<le> MAX_LIFT" if "x \<in> set (ramp (uint (currentLift w) + step) step m)" for x
    using ramp_range [OF that mn st, of 0 MAX_LIFT] sr tr unfolding tgt by auto
  have uw: "uint (word_of_int x :: 16 word) = x"
    if "x \<in> set (ramp (uint (currentLift w) + step) step m)" for x
    using inr [OF that] by (intro uint_word16_of_int) (simp_all add: MAX_LIFT_def)
  have small: "\<forall>v\<in>set (lift_positions E). uint v \<le> MAX_LIFT"
    unfolding E(2) using inr uw by auto
  have pct: "map uint (lift_percentages E)
               = map (\<lambda>v. (uint v * 100) div MAX_LIFT) (lift_positions E)"
    unfolding E(3) using small by (simp add: lift_pct_small)
  have cur: "currentLift w3 = (if m = 0 then currentLift w
               else word_of_int (uint (currentLift w) + step + (int m - 1) * step))"
    using lift_run_current [of n step "uint (currentLift w) + step" w2] w2(2)
    by (simp add: w3_def m_def)
  have last: "currentLift w3 = last (lift_positions E)" if "m \<noteq> 0"
  proof -
    have "ramp (uint (currentLift w) + step) step m \<noteq> []"
      using that length_ramp [of "uint (currentLift w) + step" step m] by auto
    then show ?thesis
      unfolding E(2) using cur that by (simp add: last_map last_ramp)
  qed
  have m0: "lift_positions E \<noteq> [] \<longleftrightarrow> m \<noteq> 0"
    unfolding E(2) using length_ramp [of "uint (currentLift w) + step" step m]
    by (metis length_0_conv map_is_Nil_conv)
  have curs: "uint (currentLift w3) \<le> MAX_LIFT"
  proof (cases "m = 0")
    case True
    then show ?thesis using cur sr by simp
  next
    case False
    then have "last (lift_positions E) \<in> set (lift_positions E)" using m0 by simp
    then show ?thesis using small last [OF False] by simp
  qed
  have pc: "currentLiftPercentage w3 = (if m = 0 then currentLiftPercentage w
               else lift_pct (currentLift w3))"
    using lift_run_percentage [of n step "uint (currentLift w) + step" w2] w2(3)
    by (simp add: w3_def m_def)
  have inv: "lift_positions E \<noteq> [] \<or> uint (currentLiftPercentage w) = (uint (currentLift w) * 100) div MAX_LIFT
           \<longrightarrow> uint (currentLiftPercentage w3) = (uint (currentLift w3) * 100) div MAX_LIFT"
  proof (cases "m = 0")
    case True
    then show ?thesis using pc cur m0 by simp
  next
    case False
    then show ?thesis using pc lift_pct_small [OF curs] by simp
  qed
  let ?E = "[DigitalWriteLed True] @ E @ [DigitalWriteLed False]"
  have o: "out (emit (DigitalWriteLed False) (w3\<lparr>moving := False\<rparr>)) = out w @ ?E"
    using E(1) w2(1) by (simp add: emit_def)
  have p: "lift_positions ?E = lift_positions E" "lift_percentages ?E = lift_percentages E"
    by simp_all
  show ?thesis
    using mv o pct small curs inv last m0 unfolding p [symmetric]
    by (intro exI [of _ "emit (DigitalWriteLed False) (w3\<lparr>moving := False\<rparr>)"] exI [of _ ?E])
       (auto simp: emit_def)
qed

subsection \<open>The control loop\<close>

lemma sample_keys_none [simp]: "sample_keys False False w = w"
  by (simp add: sample_keys_def)

lemma sample_keys_fields:
  "out (sample_keys a b w) = out w"
  "currentLift (sample_keys a b w) = currentLift w"
  "currentTilt (sample_keys a b w) = currentTilt w"
  "moving (sample_keys a b w) = moving w"
  "nextTilt (sample_keys a b w) = nextTilt w"
  by (simp_all add: sample_keys_def Let_def)

lemma request_pending:
  "request_axis cb = Some Lift \<Longrightarrow> nextLift (invoke cb w) \<noteq> - 1"
  "request_axis cb = Some Tilt \<Longrightarrow> nextTilt (invoke cb w) \<noteq> - 1"
proof -
  have l: "nextLift (invoke cb (w\<lparr>nextLift := 0\<rparr>)) \<noteq> - 1"
    by (rule invoke_nextLift) simp
  have t: "nextTilt (invoke cb (w\<lparr>nextTilt := 0\<rparr>)) \<noteq> - 1"
    by (rule invoke_nextTilt) simp
  show "request_axis cb = Some Lift \<Longrightarrow> nextLift (invoke cb w) \<noteq> - 1"
    using l by (cases cb) (simp_all add: fullOpen_def fullClose_def goToLiftPercentage_def
        emit_def Let_def)
  show "request_axis cb = Some Tilt \<Longrightarrow> nextTilt (invoke cb w) \<noteq> - 1"
    using t by (cases cb) (simp_all add: goToTiltPercentage_def emit_def Let_def)
qed

lemma request_overwrites:
  "request_axis c1 = Some a \<Longrightarrow> request_axis c2 = Some a
   \<Longrightarrow> globals (invoke c2 (invoke c1 w)) = globals (invoke c2 w)"
  by (cases c1; cases c2)
     (simp_all add: globals_def fullOpen_def fullClose_def goToLiftPercentage_def
        goToTiltPercentage_def emit_def Let_def)

text \<open>One pass of the loop body while no callback arrives and no stop is pending.\<close>

lemma loop_body_silent:
  assumes ns: "\<not> stop w" and sil: "\<forall>cbs\<in>set (incoming w). cbs = []"
  shows "\<exists>w'. loop_body False False w = Some w'
      \<and> currentLift w' = (if nextLift w \<noteq> - 1 then nextLift w else currentLift w)
      \<and> currentTilt w' = (if nextTilt w \<noteq> - 1 then nextTilt w else currentTilt w)"
proof -
  have q: "\<forall>cbs\<in>set (incoming w). StopMotor \<notin> set cbs" using sil by auto
  obtain wc where wc:
      "(if nextLift w \<noteq> - 1
        then map_option (\<lambda>w'. w'\<lparr>nextLift := - 1\<rparr>) (moveCoversLift (nextLift w) w)
        else Some w) = Some wc"
      "currentLift wc = (if nextLift w \<noteq> - 1 then nextLift w else currentLift w)"
      "currentTilt wc = currentTilt w" "nextTilt wc = nextTilt w"
      "\<not> stop wc" "\<forall>cbs\<in>set (incoming wc). cbs = []"
  proof (cases "nextLift w \<noteq> - 1")
    case True
    obtain w1 where w1: "moveCoversLift (nextLift w) w = Some w1" "currentLift w1 = nextLift w"
        "\<not> stop w1" "\<forall>cbs\<in>set (incoming w1). cbs = []" "nextTilt w1 = nextTilt w"
      using lift_move_quiet [OF ns q, of "nextLift w"] sil by blast
    obtain w1' where w1': "moveCoversLift (nextLift w) w = Some w1'" "currentTilt w1' = currentTilt w"
      using lift_move_any [of "nextLift w" w] by blast
    have "currentTilt w1 = currentTilt w" using w1(1) w1' by simp
    then show ?thesis
      using that [of "w1\<lparr>nextLift := - 1\<rparr>"] True w1 by simp
  next
    case False
    then show ?thesis using that [of w] ns sil by simp
  qed
  have qc: "\<forall>cbs\<in>set (incoming wc). StopMotor \<notin> set cbs" using wc(6) by auto
  show ?thesis
  proof (cases "nextTilt wc \<noteq> - 1")
    case True
    obtain w2 where w2: "moveCoversTilt (nextTilt wc) wc = Some w2" "currentTilt w2 = nextTilt wc"
      using tilt_move_quiet [OF wc(5) qc, of "nextTilt wc"] by blast
    obtain w2' where w2': "moveCoversTilt (nextTilt wc) wc = Some w2'" "currentLift w2' = currentLift wc"
      using tilt_move_any [of "nextTilt wc" wc] by blast
    have "currentLift w2 = currentLift wc" using w2(1) w2' by simp
    then show ?thesis
      using True wc w2 by (simp add: loop_body_def)
  next
    case False
    then show ?thesis
      using wc by (simp add: loop_body_def)
  qed
qed

lemma serviced_quiet:
  assumes "serviced s t p sched k f" and "\<not> p"
    and "\<forall>cbs\<in>set (take k sched). StopMotor \<notin> set cbs"
  shows "f = t \<and> k = nat \<bar>t - s\<bar>"
proof (rule ccontr)
  assume "\<not> (f = t \<and> k = nat \<bar>t - s\<bar>)"
  with assms(1,2) have k: "0 < k" "k \<le> length sched" "StopMotor \<in> set (sched ! (k - 1))"
    by (auto simp: serviced_def split: if_splits)
  then have "take k sched ! (k - 1) = sched ! (k - 1)" "k - 1 < length (take k sched)"
    by simp_all
  then have "sched ! (k - 1) \<in> set (take k sched)"
    by (metis nth_mem)
  with assms(3) k(3) show False by blast
qed

lemma sample_keys_env:
  "stop (sample_keys a b w) = stop w"
  "incoming (sample_keys a b w) = incoming w"
  by (simp_all add: sample_keys_def Let_def)

text \<open>The lift from 9 to 3 of the end-to-end scenario, evaluated.\<close>

lemma lift_9_to_3:
  "loop_body False False ((startup [])\<lparr>nextLift := 3\<rparr>) =
     Some \<lparr>currentLift = 3, currentLiftPercentage = 33, currentTilt = 5,
           currentTiltPercentage = 100, stop = False, moving = False,
           nextLift = - 1, nextTilt = - 1, incoming = [],
           out = [DigitalWriteLed True,
                  DrawBlinds 8 5, SetLiftPercentage 88, PrintLifting 8,
                  DrawBlinds 7 5, SetLiftPercentage 77, PrintLifting 7,
                  DrawBlinds 6 5, SetLiftPercentage 66, PrintLifting 6,
                  DrawBlinds 5 5, SetLiftPercentage 55, PrintLifting 5,
                  DrawBlinds 4 5, SetLiftPercentage 44, PrintLifting 4,
                  DrawBlinds 3 5, SetLiftPercentage 33, PrintLifting 3,
                  DigitalWriteLed False]\<rparr>"
  by code_simp

section \<open>The claims\<close>

text \<open>
  C1: from any position within an axis's limits, with no stop pending and none arriving,
  a move to any target within the limits returns with the axis exactly at the target;
  it visits as many positions as the distance between start and target, and each visited
  position is the previous one plus \<open>sgn (target - previous)\<close>, one unit away. Stated for
  the lift loop and for the tilt loop.
\<close>

theorem step_loop_reaches_target:
  assumes "\<not> stop w" and "\<forall>cbs\<in>set (incoming w). StopMotor \<notin> set cbs"
    and "MIN_LIFT \<le> uint (currentLift w)" "uint (currentLift w) \<le> MAX_LIFT"
    and "MIN_LIFT \<le> uint tgtL" "uint tgtL \<le> MAX_LIFT"
    and "MIN_TILT \<le> uint (currentTilt w)" "uint (currentTilt w) \<le> MAX_TILT"
    and "MIN_TILT \<le> uint tgtT" "uint tgtT \<le> MAX_TILT"
  shows "(\<exists>w' E. moveCoversLift tgtL w = Some w' \<and> out w' = out w @ E
            \<and> currentLift w' = tgtL
            \<and> length (lift_positions E) = nat \<bar>uint tgtL - uint (currentLift w)\<bar>
            \<and> unit_steps (uint tgtL) (uint (currentLift w)) (map uint (lift_positions E)))
       \<and> (\<exists>w' E. moveCoversTilt tgtT w = Some w' \<and> out w' = out w @ E
            \<and> currentTilt w' = tgtT
            \<and> length (tilt_positions E) = nat \<bar>uint tgtT - uint (currentTilt w)\<bar>
            \<and> unit_steps (uint tgtT) (uint (currentTilt w)) (map uint (tilt_positions E)))"
proof
  from lift_move_quiet [OF assms(1,2), of tgtL]
  show "\<exists>w' E. moveCoversLift tgtL w = Some w' \<and> out w' = out w @ E
            \<and> currentLift w' = tgtL
            \<and> length (lift_positions E) = nat \<bar>uint tgtL - uint (currentLift w)\<bar>
            \<and> unit_steps (uint tgtL) (uint (currentLift w)) (map uint (lift_positions E))"
    by blast
  from tilt_move_quiet [OF assms(1,2), of tgtT]
  show "\<exists>w' E. moveCoversTilt tgtT w = Some w' \<and> out w' = out w @ E
            \<and> currentTilt w' = tgtT
            \<and> length (tilt_positions E) = nat \<bar>uint tgtT - uint (currentTilt w)\<bar>
            \<and> unit_steps (uint tgtT) (uint (currentTilt w)) (map uint (tilt_positions E))"
    by blast
qed

text \<open>From the start-up state: the lift from 9 to 3, and the tilt from 5 to 1.\<close>

theorem step_loop_reaches_target_witness:
  "(\<exists>w'. moveCoversLift 3 (startup []) = Some w'
            \<and> currentLift w' = 3
            \<and> lift_positions (out w') = [8, 7, 6, 5, 4, 3]
            \<and> unit_steps 3 9 (map uint (lift_positions (out w'))))
       \<and> (\<exists>w'. moveCoversTilt 1 (startup []) = Some w'
            \<and> currentTilt w' = 1
            \<and> tilt_positions (out w') = [4, 3, 2, 1]
            \<and> unit_steps 1 5 (map uint (tilt_positions (out w'))))"
proof -
  have l: "map_option (\<lambda>w'. lift_positions (out w')) (moveCoversLift 3 (startup []))
             = Some [8, 7, 6, 5, 4, 3]"
    by code_simp
  have t: "map_option (\<lambda>w'. tilt_positions (out w')) (moveCoversTilt 1 (startup []))
             = Some [4, 3, 2, 1]"
    by code_simp
  show ?thesis
    using step_loop_reaches_target [of "startup []" 3 1] l t
    by (auto simp: startup_def MAX_LIFT_def MIN_LIFT_def MAX_TILT_def MIN_TILT_def)
qed

text \<open>
  C2, as the specification states it: from lift 9 with pending target 3 the loop reports
  the percentages 89, 78, 67, 56, 44, 33, the rounded values of \<open>100 * v / 9\<close>. The code
  reports 88, 77, 66, 55, 44, 33.
\<close>

theorem lift_9_to_3_percentages_counterexample:
  "\<exists>w'. loop_body False False ((startup [])\<lparr>nextLift := 3\<rparr>) = Some w'
      \<and> map uint (lift_percentages (out w')) = [88, 77, 66, 55, 44, 33]
      \<and> map (\<lambda>v. round_div (100 * uint v) MAX_LIFT) (lift_positions (out w'))
           = [89, 78, 67, 56, 44, 33]"
  by (simp add: lift_9_to_3 round_div_def MAX_LIFT_def)

text \<open>
  C2, amended: with lift limits 0 and 9, start position 9 and pending lift target 3, one
  pass of the loop body visits 8, 7, 6, 5, 4, 3 in that order, reports the percentages
  88, 77, 66, 55, 44, 33 (one after each step, \<open>100 * v div 9\<close>), and ends at 3 with the
  motion flag cleared.
\<close>

theorem lift_9_to_3_scenario:
  "\<exists>w'. loop_body False False ((startup [])\<lparr>nextLift := 3\<rparr>) = Some w'
      \<and> lift_positions (out w') = [8, 7, 6, 5, 4, 3]
      \<and> lift_percentages (out w') = [88, 77, 66, 55, 44, 33]
      \<and> map uint (lift_percentages (out w'))
           = map (\<lambda>v. (100 * uint v) div MAX_LIFT) (lift_positions (out w'))
      \<and> currentLift w' = 3 \<and> \<not> moving w'"
  by (simp add: lift_9_to_3 MAX_LIFT_def)

text \<open>
  C3, as the specification states it: after every step the reported percentage is
  \<open>round (100 * value / Max)\<close> with the axis's own maximum. One lift step from 9 to 8
  reports 88 where rounding gives 89; one tilt step from 5 to 4 reports 44 where
  \<open>round (100 * 4 / MAX_TILT)\<close> is 80.
\<close>

theorem percentage_rounding_counterexample:
  "map_option (\<lambda>w'. (map uint (lift_positions (out w')), map uint (lift_percentages (out w'))))
       (moveCoversLift 8 (startup [])) = Some ([8], [88])
   \<and> round_div (100 * 8) MAX_LIFT = 89
   \<and> map_option (\<lambda>w'. (map uint (tilt_positions (out w')), map uint (tilt_percentages (out w'))))
       (moveCoversTilt 4 (startup [])) = Some ([4], [44])
   \<and> round_div (100 * 4) MAX_TILT = 80"
  by code_simp

text \<open>
  C3, amended: in a lift move within the limits, under any schedule of callbacks, the
  percentage reported after each completed step is \<open>100 * value div MAX_LIFT\<close> for the
  position of that step, and once a step has been taken the stored lift percentage is
  that quotient of the stored lift position.
\<close>

theorem lift_percentage_is_truncated_quotient:
  assumes "MIN_LIFT \<le> uint (currentLift w)" "uint (currentLift w) \<le> MAX_LIFT"
    and "MIN_LIFT \<le> uint t" "uint t \<le> MAX_LIFT"
  shows "\<exists>w' E. moveCoversLift t w = Some w' \<and> out w' = out w @ E
      \<and> map uint (lift_percentages E) = map (\<lambda>v. (uint v * 100) div MAX_LIFT) (lift_positions E)
      \<and> (lift_positions E \<noteq> [] \<longrightarrow>
           currentLift w' = last (lift_positions E)
           \<and> uint (currentLiftPercentage w') = (uint (currentLift w') * 100) div MAX_LIFT)"
  using lift_move_percentages [OF assms(2) assms(4)] by blast

text \<open>A lift from 9 towards 3 that a stop request cuts short.\<close>

theorem lift_percentage_is_truncated_quotient_witness:
  "\<exists>w'. moveCoversLift 3 (startup [[], [StopMotor]]) = Some w'
      \<and> lift_positions (out w') = [8, 7]
      \<and> map uint (lift_percentages (out w')) = [88, 77]
      \<and> map uint (lift_percentages (out w'))
           = map (\<lambda>v. (uint v * 100) div 9) (lift_positions (out w'))
      \<and> currentLift w' = 7 \<and> uint (currentLiftPercentage w') = (uint (currentLift w') * 100) div 9"
proof -
  have l: "map_option (\<lambda>w'. (lift_positions (out w'), lift_percentages (out w')))
             (moveCoversLift 3 (startup [[], [StopMotor]])) = Some ([8, 7], [88, 77])"
    by code_simp
  show ?thesis
    using lift_percentage_is_truncated_quotient [of "startup [[], [StopMotor]]" 3] l
    by (auto simp: startup_def MAX_LIFT_def MIN_LIFT_def)
qed

text \<open>
  C4: when the first stop request arrives during a move, in the delay after step
  \<open>length qs + 1\<close>, the move returns having taken exactly that many steps; the axis stays
  at the last position visited, \<open>length qs + 1\<close> units from the start in the direction
  of the target (at the target only if that was the final step), and the motion flag is
  cleared. A stop request while the motion flag is clear changes nothing at all.
\<close>

theorem stop_request_halts_motion:
  assumes "\<not> stop w" and "incoming w = qs @ cbs # rest"
    and "\<forall>q\<in>set qs. StopMotor \<notin> set q" and "StopMotor \<in> set cbs"
  shows "(length qs < nat \<bar>uint tgtL - uint (currentLift w)\<bar> \<longrightarrow>
           (\<exists>w' E. moveCoversLift tgtL w = Some w' \<and> out w' = out w @ E
              \<and> length (lift_positions E) = Suc (length qs)
              \<and> currentLift w' = last (lift_positions E)
              \<and> uint (currentLift w') =
                  uint (currentLift w) + (int (length qs) + 1) * (if currentLift w < tgtL then 1 else - 1)
              \<and> (currentLift w' = tgtL) = (Suc (length qs) = nat \<bar>uint tgtL - uint (currentLift w)\<bar>)
              \<and> \<not> moving w'))
       \<and> (length qs < nat \<bar>uint tgtT - uint (currentTilt w)\<bar> \<longrightarrow>
           (\<exists>w' E. moveCoversTilt tgtT w = Some w' \<and> out w' = out w @ E
              \<and> length (tilt_positions E) = Suc (length qs)
              \<and> currentTilt w' = last (tilt_positions E)
              \<and> uint (currentTilt w') =
                  uint (currentTilt w) + (int (length qs) + 1) * (if currentTilt w < tgtT then 1 else - 1)
              \<and> (currentTilt w' = tgtT) = (Suc (length qs) = nat \<bar>uint tgtT - uint (currentTilt w)\<bar>)
              \<and> \<not> moving w'))
       \<and> (\<forall>v :: blinds. \<not> moving v \<longrightarrow> stopMotor v = v)"
proof (intro conjI impI allI)
  assume len: "length qs < nat \<bar>uint tgtL - uint (currentLift w)\<bar>"
  then have ne: "tgtL \<noteq> currentLift w" by auto
  from lift_move_cancel [OF ne assms(1) assms(2) assms(3) assms(4) len]
  show "\<exists>w' E. moveCoversLift tgtL w = Some w' \<and> out w' = out w @ E
              \<and> length (lift_positions E) = Suc (length qs)
              \<and> currentLift w' = last (lift_positions E)
              \<and> uint (currentLift w') =
                  uint (currentLift w) + (int (length qs) + 1) * (if currentLift w < tgtL then 1 else - 1)
              \<and> (currentLift w' = tgtL) = (Suc (length qs) = nat \<bar>uint tgtL - uint (currentLift w)\<bar>)
              \<and> \<not> moving w'"
    by blast
next
  assume len: "length qs < nat \<bar>uint tgtT - uint (currentTilt w)\<bar>"
  then have ne: "tgtT \<noteq> currentTilt w" by auto
  from tilt_move_cancel [OF ne assms(1) assms(2) assms(3) assms(4) len]
  show "\<exists>w' E. moveCoversTilt tgtT w = Some w' \<and> out w' = out w @ E
              \<and> length (tilt_positions E) = Suc (length qs)
              \<and> currentTilt w' = last (tilt_positions E)
              \<and> uint (currentTilt w') =
                  uint (currentTilt w) + (int (length qs) + 1) * (if currentTilt w < tgtT then 1 else - 1)
              \<and> (currentTilt w' = tgtT) = (Suc (length qs) = nat \<bar>uint tgtT - uint (currentTilt w)\<bar>)
              \<and> \<not> moving w'"
    by blast
next
  fix v :: blinds
  assume "\<not> moving v"
  then show "stopMotor v = v" by (simp add: stopMotor_def)
qed

text \<open>
  A stop request in the delay after the second step of a lift from 9 towards 0 and of a
  tilt from 5 towards 0; a stop request at start-up.
\<close>

theorem stop_request_halts_motion_witness:
  "(\<exists>w'. moveCoversLift 0 (startup [[], [StopMotor], [], []]) = Some w'
      \<and> lift_positions (out w') = [8, 7]
      \<and> currentLift w' = 7 \<and> \<not> moving w')
   \<and> (\<exists>w'. moveCoversTilt 0 (startup [[], [StopMotor], [], []]) = Some w'
      \<and> tilt_positions (out w') = [4, 3]
      \<and> currentTilt w' = 3 \<and> \<not> moving w')
   \<and> stopMotor (startup []) = startup []"
proof -
  have l: "map_option (\<lambda>w'. lift_positions (out w')) (moveCoversLift 0 (startup [[], [StopMotor], [], []]))
             = Some [8, 7]"
    by code_simp
  have t: "map_option (\<lambda>w'. tilt_positions (out w')) (moveCoversTilt 0 (startup [[], [StopMotor], [], []]))
             = Some [4, 3]"
    by code_simp
  show ?thesis
    using stop_request_halts_motion [of "startup [[], [StopMotor], [], []]" "[[]]" "[StopMotor]" "[[], []]" 0 0] l t
    by (auto simp: startup_def MAX_LIFT_def MAX_TILT_def)
qed

text \<open>
  C5: when the only stop request of a lift move arrives in the delay after its final
  step, the move completes at its target with the stop flag left set; the next move of
  either axis to a different position then returns at its first stop check, having
  taken no step and emitted nothing but the two LED writes.
\<close>

theorem stale_stop_cancels_next_motion:
  assumes "\<not> stop w" and "incoming w = qs @ cbs # rest"
    and "\<forall>q\<in>set qs. StopMotor \<notin> set q" and "StopMotor \<in> set cbs"
    and "Suc (length qs) = nat \<bar>uint tgt - uint (currentLift w)\<bar>"
  shows "\<exists>w1 E. moveCoversLift tgt w = Some w1 \<and> out w1 = out w @ E
      \<and> length (lift_positions E) = nat \<bar>uint tgt - uint (currentLift w)\<bar>
      \<and> currentLift w1 = tgt \<and> currentTilt w1 = currentTilt w \<and> \<not> moving w1 \<and> stop w1
      \<and> (\<forall>t2. t2 \<noteq> currentLift w1 \<longrightarrow>
            moveCoversLift t2 w1 =
              Some (w1\<lparr>stop := False, moving := False,
                       out := out w1 @ [DigitalWriteLed True, DigitalWriteLed False]\<rparr>))
      \<and> (\<forall>t2. t2 \<noteq> currentTilt w1 \<longrightarrow>
            moveCoversTilt t2 w1 =
              Some (w1\<lparr>stop := False, moving := False,
                       out := out w1 @ [DigitalWriteLed True, DigitalWriteLed False]\<rparr>))"
proof -
  have len: "length qs < nat \<bar>uint tgt - uint (currentLift w)\<bar>" using assms(5) by simp
  then have ne: "tgt \<noteq> currentLift w" by auto
  obtain w1 E where w1: "moveCoversLift tgt w = Some w1" "out w1 = out w @ E"
      "length (lift_positions E) = Suc (length qs)"
      "(currentLift w1 = tgt) = (Suc (length qs) = nat \<bar>uint tgt - uint (currentLift w)\<bar>)"
      "\<not> moving w1"
      "stop w1 = (Suc (length qs) = nat \<bar>uint tgt - uint (currentLift w)\<bar>)"
    using lift_move_cancel [OF ne assms(1) assms(2) assms(3) assms(4) len] by blast
  obtain w1' where w1': "moveCoversLift tgt w = Some w1'" "currentTilt w1' = currentTilt w"
    using lift_move_any [of tgt w] by blast
  have ct: "currentTilt w1 = currentTilt w" using w1(1) w1' by simp
  have s1: "stop w1" "currentLift w1 = tgt" using w1(4,6) assms(5) by simp_all
  show ?thesis
    using w1(1,2,3,5) s1 ct assms(5) lift_move_stale_stop [OF s1(1)] tilt_move_stale_stop [OF s1(1)]
    by (intro exI [of _ w1] exI [of _ E]) simp
qed

text \<open>
  A lift from 9 to 7 with a stop request in the delay after the second step, followed by
  a lift to 3 or a tilt to 2.
\<close>

theorem stale_stop_cancels_next_motion_witness:
  "\<exists>w1. moveCoversLift 7 (startup [[], [StopMotor]]) = Some w1
      \<and> currentLift w1 = 7 \<and> currentTilt w1 = 5 \<and> \<not> moving w1 \<and> stop w1
      \<and> moveCoversLift 3 w1 =
              Some (w1\<lparr>stop := False, moving := False,
                       out := out w1 @ [DigitalWriteLed True, DigitalWriteLed False]\<rparr>)
      \<and> moveCoversTilt 2 w1 =
              Some (w1\<lparr>stop := False, moving := False,
                       out := out w1 @ [DigitalWriteLed True, DigitalWriteLed False]\<rparr>)"
proof -
  from stale_stop_cancels_next_motion [of "startup [[], [StopMotor]]" "[[]]" "[StopMotor]" "[]" 7]
  obtain w1 where w1: "moveCoversLift 7 (startup [[], [StopMotor]]) = Some w1"
      "currentLift w1 = 7" "currentTilt w1 = 5" "\<not> moving w1" "stop w1"
      "\<forall>t2. t2 \<noteq> currentLift w1 \<longrightarrow>
            moveCoversLift t2 w1 =
              Some (w1\<lparr>stop := False, moving := False,
                       out := out w1 @ [DigitalWriteLed True, DigitalWriteLed False]\<rparr>)"
      "\<forall>t2. t2 \<noteq> currentTilt w1 \<longrightarrow>
            moveCoversTilt t2 w1 =
              Some (w1\<lparr>stop := False, moving := False,
                       out := out w1 @ [DigitalWriteLed True, DigitalWriteLed False]\<rparr>)"
    by (auto simp: startup_def MAX_LIFT_def MAX_TILT_def)
  have "(3 :: 16 word) \<noteq> currentLift w1" "(2 :: 16 word) \<noteq> currentTilt w1"
    using w1(2,3) by simp_all
  then show ?thesis using w1 by blast
qed

text \<open>
  C6, as the specification states it: the remote percent-to-value translation maps a
  percent \<open>p\<close> to \<open>round (p * Max / 100)\<close>, so that 50 percent of a lift range of 9 is 5.
  The code divides in integers: 50 percent becomes 4.
\<close>

theorem percent_to_value_rounding_counterexample:
  "nextLift (goToLiftPercentage 50 (startup [])) = 4 \<and> round_div (50 * MAX_LIFT) 100 = 5"
  by (simp add: goToLiftPercentage_def Let_def emit_def startup_def round_div_def MAX_LIFT_def)

text \<open>
  C6, amended: for every percent \<open>p\<close> the pending target stored by
  \<^verbatim>\<open>goToLiftPercentage\<close> is \<open>p * MAX_LIFT div 100\<close> and the one stored by
  \<^verbatim>\<open>goToTiltPercentage\<close> is \<open>p * MAX_TILT div 100\<close>, the quotient rounded down.
\<close>

theorem percent_to_value_truncates:
  "uint (nextLift (goToLiftPercentage p w)) = (uint p * MAX_LIFT) div 100
   \<and> uint (nextTilt (goToTiltPercentage p w)) = (uint p * MAX_TILT) div 100"
proof -
  have b: "0 \<le> uint p" "uint p < 256" using uint8_bounds [of p] by simp_all
  have "(uint p * 9) div 100 \<le> 2295 div 100" using b by (intro zdiv_mono1) simp_all
  then have l: "0 \<le> (uint p * 9) div 100" "(uint p * 9) div 100 < 65536"
    using b by (simp_all add: pos_imp_zdiv_nonneg_iff)
  have "(uint p * 5) div 100 \<le> 1275 div 100" using b by (intro zdiv_mono1) simp_all
  then have t: "0 \<le> (uint p * 5) div 100" "(uint p * 5) div 100 < 65536"
    using b by (simp_all add: pos_imp_zdiv_nonneg_iff)
  show ?thesis
    using uint_word16_of_int [OF l] uint_word16_of_int [OF t]
    by (simp add: goToLiftPercentage_def goToTiltPercentage_def Let_def emit_def
          MAX_LIFT_def MAX_TILT_def)
qed

text \<open>
  C7: a second request for the same axis, issued before the first is consumed, leaves
  the program variables exactly as the second request alone does (each axis has one
  pending target, which is overwritten); and when the loop body then runs with no stop
  pending and no callback arriving, the axis ends at the target of the second request.
\<close>

theorem last_request_wins:
  assumes "request_axis c1 = Some a" and "request_axis c2 = Some a"
  shows "globals (invoke c2 (invoke c1 w)) = globals (invoke c2 w)
     \<and> (\<not> stop w \<and> (\<forall>cbs\<in>set (incoming w). cbs = []) \<longrightarrow>
          (\<exists>w'. loop_body False False (invoke c2 (invoke c1 w)) = Some w'
             \<and> (case a of Lift \<Rightarrow> currentLift w' = nextLift (invoke c2 w)
                        | Tilt \<Rightarrow> currentTilt w' = nextTilt (invoke c2 w))))"
proof (intro conjI impI)
  show g: "globals (invoke c2 (invoke c1 w)) = globals (invoke c2 w)"
    using assms by (rule request_overwrites)
  assume h: "\<not> stop w \<and> (\<forall>cbs\<in>set (incoming w). cbs = [])"
  let ?w0 = "invoke c2 (invoke c1 w)"
  have c: "c1 \<noteq> StopMotor" "c2 \<noteq> StopMotor" using assms by auto
  have w0: "\<not> stop ?w0" "\<forall>cbs\<in>set (incoming ?w0). cbs = []"
    using h c by (simp_all add: invoke_fields)
  have nx: "nextLift ?w0 = nextLift (invoke c2 w)" "nextTilt ?w0 = nextTilt (invoke c2 w)"
    using g by (simp_all add: globals_def)
  obtain w' where w': "loop_body False False ?w0 = Some w'"
      "currentLift w' = (if nextLift ?w0 \<noteq> - 1 then nextLift ?w0 else currentLift ?w0)"
      "currentTilt w' = (if nextTilt ?w0 \<noteq> - 1 then nextTilt ?w0 else currentTilt ?w0)"
    using loop_body_silent [OF w0] by blast
  show "\<exists>w'. loop_body False False ?w0 = Some w'
             \<and> (case a of Lift \<Rightarrow> currentLift w' = nextLift (invoke c2 w)
                        | Tilt \<Rightarrow> currentTilt w' = nextTilt (invoke c2 w))"
  proof (cases a)
    case Lift
    then have "nextLift (invoke c2 w) \<noteq> - 1" using assms(2) request_pending(1) by blast
    then show ?thesis using w' nx Lift by simp
  next
    case Tilt
    then have "nextTilt (invoke c2 w) \<noteq> - 1" using assms(2) request_pending(2) by blast
    then show ?thesis using w' nx Tilt by simp
  qed
qed

text \<open>Open, then go to 50 percent: the lift ends at 4.\<close>

theorem last_request_wins_witness:
  "globals (invoke (GoToLiftPercentage 50) (invoke FullOpen (startup [])))
     = globals (invoke (GoToLiftPercentage 50) (startup []))
   \<and> (\<exists>w'. loop_body False False (invoke (GoToLiftPercentage 50) (invoke FullOpen (startup [])))
              = Some w'
          \<and> currentLift w' = 4)"
  using last_request_wins [of FullOpen Lift "GoToLiftPercentage 50" "startup []"]
  by (simp add: startup_def goToLiftPercentage_def emit_def Let_def MAX_LIFT_def)

text \<open>
  C8: in one pass of the loop body with both targets pending and the motion flag clear,
  the lift move runs first and is serviced fully: it returns either complete, all steps
  taken and the lift at its target, or cancelled after \<open>k\<close> steps, \<open>k\<close> units from its
  start, and then a stop was pending at the call (\<open>k = 0\<close>) or a stop request arrived in
  the delay after step \<open>k\<close>; with no stop pending and none arriving during its steps the
  lift ends at its target. It returns with the motion flag clear and the tilt untouched.
  Only then the tilt move runs, from the state the lift move left and towards the tilt
  target pending at that moment, and is serviced fully in the same sense, with the lift
  untouched. The log of the pass is the log of the lift move, which holds no tilt step,
  followed by the log of the tilt move, which holds no lift step.
\<close>

theorem lift_serviced_before_tilt:
  assumes "nextLift (sample_keys keyA keyB w) \<noteq> - 1" and "nextTilt w \<noteq> - 1" and "\<not> moving w"
  shows "\<exists>w1 w2 L T.
      moveCoversLift (nextLift (sample_keys keyA keyB w)) (sample_keys keyA keyB w) = Some w1
      \<and> out w1 = out w @ L \<and> (\<forall>e\<in>set L. \<not> is_tilt_step e)
      \<and> serviced (uint (currentLift w)) (uint (nextLift (sample_keys keyA keyB w)))
           (stop w) (incoming w) (length (lift_positions L)) (uint (currentLift w1))
      \<and> (\<not> stop w \<and> (\<forall>cbs\<in>set (take (length (lift_positions L)) (incoming w)). StopMotor \<notin> set cbs)
           \<longrightarrow> currentLift w1 = nextLift (sample_keys keyA keyB w))
      \<and> incoming w1 = drop (length (lift_positions L)) (incoming w)
      \<and> currentTilt w1 = currentTilt w \<and> \<not> moving w1
      \<and> moveCoversTilt (nextTilt w1) (w1\<lparr>nextLift := - 1\<rparr>) = Some w2
      \<and> out w2 = out w1 @ T \<and> (\<forall>e\<in>set T. \<not> is_lift_step e)
      \<and> serviced (uint (currentTilt w1)) (uint (nextTilt w1))
           (stop w1) (incoming w1) (length (tilt_positions T)) (uint (currentTilt w2))
      \<and> (\<not> stop w1 \<and> (\<forall>cbs\<in>set (take (length (tilt_positions T)) (incoming w1)). StopMotor \<notin> set cbs)
           \<longrightarrow> currentTilt w2 = nextTilt w1)
      \<and> incoming w2 = drop (length (tilt_positions T)) (incoming w1)
      \<and> currentLift w2 = currentLift w1
      \<and> loop_body keyA keyB w = Some (w2\<lparr>nextTilt := - 1\<rparr>)"
proof -
  let ?wb = "sample_keys keyA keyB w"
  obtain w1 L where w1: "moveCoversLift (nextLift ?wb) ?wb = Some w1" "out w1 = out ?wb @ L"
      "\<forall>e\<in>set L. \<not> is_tilt_step e" "currentTilt w1 = currentTilt ?wb"
      "\<not> moving ?wb \<longrightarrow> \<not> moving w1" "nextTilt ?wb \<noteq> - 1 \<longrightarrow> nextTilt w1 \<noteq> - 1"
    using lift_move_any [of "nextLift ?wb" ?wb] by blast
  obtain w1' L' where w1': "moveCoversLift (nextLift ?wb) ?wb = Some w1'" "out w1' = out ?wb @ L'"
      "incoming w1' = drop (length (lift_positions L')) (incoming ?wb)"
      "serviced (uint (currentLift ?wb)) (uint (nextLift ?wb)) (stop ?wb) (incoming ?wb)
           (length (lift_positions L')) (uint (currentLift w1'))"
    using lift_move_outcome [of "nextLift ?wb" ?wb] by blast
  have same1: "w1' = w1" "L' = L" using w1(1,2) w1'(1,2) by simp_all
  have sv1: "serviced (uint (currentLift w)) (uint (nextLift ?wb)) (stop w) (incoming w)
           (length (lift_positions L)) (uint (currentLift w1))"
      "incoming w1 = drop (length (lift_positions L)) (incoming w)"
    using w1'(3,4) unfolding same1 by (simp_all add: sample_keys_fields sample_keys_env)
  have q1: "\<not> stop w \<and> (\<forall>cbs\<in>set (take (length (lift_positions L)) (incoming w)). StopMotor \<notin> set cbs)
           \<longrightarrow> currentLift w1 = nextLift ?wb"
    using serviced_quiet [OF sv1(1)] by (auto simp: word_uint_eq_iff)
  let ?wc = "w1\<lparr>nextLift := - 1\<rparr>"
  obtain w2 T where w2: "moveCoversTilt (nextTilt w1) ?wc = Some w2"
      "out w2 = out ?wc @ T" "\<forall>e\<in>set T. \<not> is_lift_step e"
      "currentLift w2 = currentLift ?wc"
    using tilt_move_any [of "nextTilt w1" ?wc] by blast
  obtain w2' T' where w2': "moveCoversTilt (nextTilt w1) ?wc = Some w2'" "out w2' = out ?wc @ T'"
      "incoming w2' = drop (length (tilt_positions T')) (incoming ?wc)"
      "serviced (uint (currentTilt ?wc)) (uint (nextTilt w1)) (stop ?wc) (incoming ?wc)
           (length (tilt_positions T')) (uint (currentTilt w2'))"
    using tilt_move_outcome [of "nextTilt w1" ?wc] by blast
  have same2: "w2' = w2" "T' = T" using w2(1,2) w2'(1,2) by simp_all
  have sv2: "serviced (uint (currentTilt w1)) (uint (nextTilt w1)) (stop w1) (incoming w1)
           (length (tilt_positions T)) (uint (currentTilt w2))"
      "incoming w2 = drop (length (tilt_positions T)) (incoming w1)"
    using w2'(3,4) unfolding same2 by simp_all
  have q2: "\<not> stop w1 \<and> (\<forall>cbs\<in>set (take (length (tilt_positions T)) (incoming w1)). StopMotor \<notin> set cbs)
           \<longrightarrow> currentTilt w2 = nextTilt w1"
    using serviced_quiet [OF sv2(1)] by (auto simp: word_uint_eq_iff)
  have nt: "nextTilt w1 \<noteq> - 1" using w1(6) assms(2) by (simp add: sample_keys_fields)
  have lb: "loop_body keyA keyB w = Some (w2\<lparr>nextTilt := - 1\<rparr>)"
    using assms(1) w1(1) w2(1) nt by (simp add: loop_body_def Let_def)
  have f1: "out w1 = out w @ L" "currentTilt w1 = currentTilt w" "\<not> moving w1"
    using w1(2,4,5) assms(3) by (simp_all add: sample_keys_fields)
  have f2: "out w2 = out w1 @ T" "currentLift w2 = currentLift w1"
    using w2(2,4) by simp_all
  show ?thesis
    using w1(1) f1 w1(3) sv1 q1 w2(1) f2 w2(3) sv2 q2 lb
    by (intro exI [of _ w1] exI [of _ w2] exI [of _ L] exI [of _ T]) blast
qed

text \<open>
  Lift 9 to 7 and tilt 5 to 3 pending, with a tilt request for 0 percent arriving during
  the first lift step: the lift goes 8, 7, then the tilt goes 4, 3, 2, 1, 0.
\<close>

theorem lift_serviced_before_tilt_witness:
  "\<exists>w1 w2.
      moveCoversLift 7 ((startup [[GoToTiltPercentage 0]])\<lparr>nextLift := 7, nextTilt := 3\<rparr>) = Some w1
      \<and> lift_positions (out w1) = [8, 7] \<and> tilt_positions (out w1) = []
      \<and> currentLift w1 = 7 \<and> currentTilt w1 = 5 \<and> nextTilt w1 = 0 \<and> \<not> moving w1
      \<and> moveCoversTilt 0 (w1\<lparr>nextLift := - 1\<rparr>) = Some w2
      \<and> lift_positions (out w2) = [8, 7] \<and> tilt_positions (out w2) = [4, 3, 2, 1, 0]
      \<and> currentLift w2 = 7 \<and> currentTilt w2 = 0
      \<and> loop_body False False ((startup [[GoToTiltPercentage 0]])\<lparr>nextLift := 7, nextTilt := 3\<rparr>)
           = Some (w2\<lparr>nextTilt := - 1\<rparr>)"
proof -
  let ?w0 = "(startup [[GoToTiltPercentage 0]])\<lparr>nextLift := 7, nextTilt := 3\<rparr>"
  have l: "map_option (\<lambda>v. (lift_positions (out v), tilt_positions (out v), currentLift v,
                              nextTilt v))
             (moveCoversLift 7 ?w0) = Some ([8, 7], [], 7, 0)"
    by code_simp
  have t: "map_option (\<lambda>v. (lift_positions (out v), tilt_positions (out v), currentLift v,
                              currentTilt v))
             (loop_body False False ?w0) = Some ([8, 7], [4, 3, 2, 1, 0], 7, 0)"
    by code_simp
  have h: "nextLift (sample_keys False False ?w0) \<noteq> - 1" "nextTilt ?w0 \<noteq> - 1" "\<not> moving ?w0"
    by (simp_all add: startup_def)
  from lift_serviced_before_tilt [OF h]
  obtain w1 w2 where w: "moveCoversLift 7 ?w0 = Some w1" "currentTilt w1 = 5" "\<not> moving w1"
      "moveCoversTilt (nextTilt w1) (w1\<lparr>nextLift := - 1\<rparr>) = Some w2"
      "loop_body False False ?w0 = Some (w2\<lparr>nextTilt := - 1\<rparr>)"
    by (auto simp: startup_def MAX_TILT_def)
  show ?thesis
    using w l t by (intro exI [of _ w1] exI [of _ w2]) simp
qed

text \<open>
  C9: in the CO2 sketch, when the wake-up, the discarded first measurement or the
  read-out returns a nonzero error, the cycle is abandoned: the global error is nonzero,
  the last thing the function does is print the error, no endpoint value is set, no
  report is sent, and no sensor command is issued a second time.
\<close>

theorem sensor_failure_abandons_cycle:
  assumes "wakeUp s \<noteq> 0 \<or> measureSingleShot s \<noteq> 0 \<or> fst (measureAndReadSingleShot s) \<noteq> 0"
  shows "fst (meausureAndReport s) \<noteq> 0
     \<and> is_error_print (last (snd (meausureAndReport s)))
     \<and> (\<forall>e\<in>set (snd (meausureAndReport s)). \<not> is_endpoint_update e \<and> \<not> is_report e)
     \<and> distinct (filter is_sensor_command (snd (meausureAndReport s)))"
  using assms
  by (cases "measureAndReadSingleShot s") (auto simp: meausureAndReport_def Let_def)

text \<open>A cycle in which the read-out fails with error 5, after two successful commands.\<close>

theorem sensor_failure_abandons_cycle_witness:
  "fst (meausureAndReport \<lparr>wakeUp = 0, measureSingleShot = 0,
          measureAndReadSingleShot = (5, 0, (), ())\<rparr>) = 5
   \<and> snd (meausureAndReport \<lparr>wakeUp = 0, measureSingleShot = 0,
          measureAndReadSingleShot = (5, 0, (), ())\<rparr>) =
       [SensorWakeUp, SensorMeasureSingleShot, SensorMeasureAndReadSingleShot,
        PrintError ''measureAndReadSingleShot'' 5]"
  using sensor_failure_abandons_cycle [of "\<lparr>wakeUp = 0, measureSingleShot = 0,
          measureAndReadSingleShot = (5, 0, (), ())\<rparr>"]
  by (simp add: meausureAndReport_def)

text \<open>
  C10: a move whose target equals the axis's current position returns at once with the
  whole state as it was: no step, no notification, no display update, no LED write, the
  motion flag and every other variable unchanged.
\<close>

theorem move_to_current_position_is_noop:
  "moveCoversLift (currentLift w) w = Some w \<and> moveCoversTilt (currentTilt w) w = Some w"
  by (simp add: moveCoversLift_def moveCoversTilt_def)

end
